theory Spec2Isabelle
  imports Main "HOL-Library.Word"
begin

section \<open>The type model of sszgen\<close>

text \<open>
  The SSZ kinds of \<^verbatim>\<open>sszgen/main.go\<close> (\<^verbatim>\<open>type Type int\<close> with its nine constants,
  \<^verbatim>\<open>TypeUndefined\<close> being the zero value).
\<close>

datatype Type =
    TypeUndefined | TypeUint | TypeBool | TypeBytes | TypeBitList
  | TypeVector | TypeList | TypeContainer | TypeReference

text \<open>
  The scalar fields of \<^verbatim>\<open>struct Value\<close>.  The Go fields \<^verbatim>\<open>name, obj, s, t, c, m, ref,
  noPtr, fixed\<close> carry the prefix \<open>f_\<close> here, because one-letter constants would capture
  the variables of every later statement.  \<^verbatim>\<open>uint64\<close> is \<^typ>\<open>64 word\<close>.
\<close>

record hdr =
  f_name :: string
  f_obj :: string
  f_s :: "64 word"
  f_t :: Type
  f_c :: bool
  f_m :: "64 word"
  f_ref :: string
  f_noPtr :: bool
  f_fixed :: bool

text \<open>
  A \<^verbatim>\<open>*Value\<close> seen as a value: the scalar fields, the field nodes \<^verbatim>\<open>o []*Value\<close> and the
  element node \<^verbatim>\<open>e *Value\<close>, which is \<^verbatim>\<open>nil\<close> for most kinds.  The entries of \<^verbatim>\<open>o\<close> are
  never \<^verbatim>\<open>nil\<close>: the only writer, \<^verbatim>\<open>parseASTStructType\<close>, skips a \<^verbatim>\<open>nil\<close> element before
  it appends, and \<^verbatim>\<open>copy\<close> keeps the entries.
\<close>

datatype Value = Value (hdr: hdr) (v_o: "Value list") (v_e: "Value option")

abbreviation v_name :: "Value \<Rightarrow> string" where "v_name v \<equiv> f_name (hdr v)"
abbreviation v_obj :: "Value \<Rightarrow> string" where "v_obj v \<equiv> f_obj (hdr v)"
abbreviation v_s :: "Value \<Rightarrow> 64 word" where "v_s v \<equiv> f_s (hdr v)"
abbreviation v_t :: "Value \<Rightarrow> Type" where "v_t v \<equiv> f_t (hdr v)"
abbreviation v_c :: "Value \<Rightarrow> bool" where "v_c v \<equiv> f_c (hdr v)"
abbreviation v_m :: "Value \<Rightarrow> 64 word" where "v_m v \<equiv> f_m (hdr v)"
abbreviation v_ref :: "Value \<Rightarrow> string" where "v_ref v \<equiv> f_ref (hdr v)"
abbreviation v_noPtr :: "Value \<Rightarrow> bool" where "v_noPtr v \<equiv> f_noPtr (hdr v)"
abbreviation v_fixed :: "Value \<Rightarrow> bool" where "v_fixed v \<equiv> f_fixed (hdr v)"

text \<open>The zero value \<^verbatim>\<open>Value{}\<close>.\<close>

definition hdr0 :: hdr where
  "hdr0 = \<lparr>f_name = [], f_obj = [], f_s = 0, f_t = TypeUndefined, f_c = False, f_m = 0,
           f_ref = [], f_noPtr = False, f_fixed = False\<rparr>"

definition Value0 :: Value where
  "Value0 = Value hdr0 [] None"

text \<open>
  What a Go call can do besides returning a value: return an \<^verbatim>\<open>error\<close> (the text names the
  \<^verbatim>\<open>fmt.Errorf\<close> format), panic, or, in the model only, run out of the recursion budget.
\<close>

datatype error = Err string | Panic | OutOfFuel

section \<open>The fixed-size classifier\<close>

text \<open>
  \<^verbatim>\<open>func (v *Value) isFixed() bool\<close>.  The \<^verbatim>\<open>fmt.Printf\<close> calls only write to standard output
  and are left out.  \<^verbatim>\<open>v.e.t\<close> on a \<^verbatim>\<open>nil\<close> element is a nil dereference, and the
  \<^verbatim>\<open>default\<close> branch panics; both are \<open>Inl Panic\<close>.  The loop over \<^verbatim>\<open>v.o\<close> returns at the
  first field that is not fixed.
\<close>

fun isFixed :: "Value \<Rightarrow> error + bool"
  and isFixed_fields :: "Value list \<Rightarrow> error + bool" where
  "isFixed (Value h fs el) =
     (case f_t h of
        TypeUint \<Rightarrow> Inr True
      | TypeBool \<Rightarrow> Inr True
      | TypeList \<Rightarrow> Inr False
      | TypeBitList \<Rightarrow> Inr False
      | TypeVector \<Rightarrow> (case el of None \<Rightarrow> Inl Panic | Some x \<Rightarrow> isFixed x)
      | TypeBytes \<Rightarrow> (if f_fixed h then Inr True else Inr False)
      | TypeContainer \<Rightarrow> isFixed_fields fs
      | TypeReference \<Rightarrow> (if f_s h \<noteq> 0 then Inr True else Inr False)
      | TypeUndefined \<Rightarrow> Inl Panic)"
| "isFixed_fields [] = Inr True"
| "isFixed_fields (f # fs) =
     (case isFixed f of
        Inl err \<Rightarrow> Inl err
      | Inr b \<Rightarrow> if \<not> b then Inr False else isFixed_fields fs)"

text \<open>
  A node is \<open>defined\<close> when it and every node below it has one of the eight kinds other
  than \<^verbatim>\<open>TypeUndefined\<close>, and every node of kind \<^verbatim>\<open>TypeVector\<close> has an element node.
\<close>

fun defined :: "Value \<Rightarrow> bool" where
  "defined (Value h fs el) =
     (f_t h \<noteq> TypeUndefined \<and> (\<forall>f \<in> set fs. defined f) \<and>
      (case el of None \<Rightarrow> f_t h \<noteq> TypeVector | Some x \<Rightarrow> defined x))"

section \<open>Strings and tags\<close>

text \<open>
  The functions of Go's \<^verbatim>\<open>strings\<close> package that \<^verbatim>\<open>getTags\<close> uses, on byte strings.
  \<^verbatim>\<open>Split\<close> is only called with a one-byte separator, and \<^verbatim>\<open>Trim\<close> with a one-byte cutset.
\<close>

definition Trim :: "string \<Rightarrow> string \<Rightarrow> string" where
  "Trim str cutset =
     rev (dropWhile (\<lambda>ch. ch \<in> set cutset) (rev (dropWhile (\<lambda>ch. ch \<in> set cutset) str)))"

fun Split :: "string \<Rightarrow> char \<Rightarrow> string list" where
  "Split [] sep = [[]]"
| "Split (ch # rest) sep =
     (if ch = sep then [] # Split rest sep
      else (ch # hd (Split rest sep)) # tl (Split rest sep))"

definition HasPrefix :: "string \<Rightarrow> string \<Rightarrow> bool" where
  "HasPrefix str p = (take (length p) str = p)"

definition HasSuffix :: "string \<Rightarrow> string \<Rightarrow> bool" where
  "HasSuffix str p = (length p \<le> length str \<and> drop (length str - length p) str = p)"

text \<open>
  \<^verbatim>\<open>strconv.Atoi\<close>: an optional sign, then one or more decimal digits, the value within
  the 64-bit \<^verbatim>\<open>int\<close>; anything else is an error (\<open>None\<close>).
\<close>

definition is_digit :: "char \<Rightarrow> bool" where
  "is_digit ch = (48 \<le> (of_char ch :: nat) \<and> (of_char ch :: nat) \<le> 57)"

definition decimal :: "string \<Rightarrow> int" where
  "decimal ds = foldl (\<lambda>acc ch. acc * 10 + (int (of_char ch) - 48)) 0 ds"

definition Atoi :: "string \<Rightarrow> int option" where
  "Atoi str =
     (let neg = (str \<noteq> [] \<and> hd str = CHR ''-'');
          ds = (if str \<noteq> [] \<and> (hd str = CHR ''-'' \<or> hd str = CHR ''+'') then tl str else str);
          num = (if neg then - decimal ds else decimal ds)
      in if ds = [] \<or> \<not> list_all is_digit ds then None
         else if num < - (2 ^ 63) \<or> 2 ^ 63 - 1 < num then None
         else Some num)"

text \<open>
  \<^verbatim>\<open>getTags(str, field)\<close>: the loop over the space-separated tags returns "not found" at the
  first tag that is not of the shape \<^verbatim>\<open>name:"value"\<close>.  The Go result
  \<^verbatim>\<open>(string, bool)\<close> is an option.
\<close>

fun getTags_loop :: "string list \<Rightarrow> string \<Rightarrow> string option" where
  "getTags_loop [] field = None"
| "getTags_loop (tag # rest) field =
     (if CHR '':'' \<notin> set tag then None
      else let spl = Split tag (CHR '':'') in
        if length spl \<noteq> 2 then None
        else let tagName = spl ! 0; vals = spl ! 1 in
          if \<not> HasPrefix vals [CHR 0x22] \<or> \<not> HasSuffix vals [CHR 0x22] then None
          else if tagName \<noteq> field then getTags_loop rest field
          else Some (Trim vals [CHR 0x22]))"

definition getTags :: "string \<Rightarrow> string \<Rightarrow> string option" where
  "getTags str field = getTags_loop (Split (Trim str [CHR 0x60]) (CHR '' '')) field"

text \<open>\<^verbatim>\<open>getTagsInt\<close>: \<^verbatim>\<open>uint64(num)\<close> wraps a negative number.\<close>

definition getTagsInt :: "string \<Rightarrow> string \<Rightarrow> 64 word option" where
  "getTagsInt str field =
     (case getTags str field of
        None \<Rightarrow> None
      | Some numStr \<Rightarrow> (case Atoi numStr of None \<Rightarrow> None | Some num \<Rightarrow> Some (word_of_int num)))"

text \<open>\<^verbatim>\<open>isExportedField\<close>: \<^verbatim>\<open>str[0] <= 90\<close>; indexing the empty string panics.\<close>

definition isExportedField :: "string \<Rightarrow> error + bool" where
  "isExportedField str = (case str of [] \<Rightarrow> Inl Panic | ch # _ \<Rightarrow> Inr ((of_char ch :: nat) \<le> 90))"

section \<open>The syntax trees the builder reads\<close>

text \<open>
  The part of \<^verbatim>\<open>go/ast\<close> that the builder inspects.  \<open>OtherExpr\<close> stands for every
  expression node the type switches do not name.  \<^verbatim>\<open>ArrayType.Len\<close> is \<^verbatim>\<open>nil\<close> for a slice.
  A \<open>Field\<close> has its names, its type and its tag (\<^verbatim>\<open>nil\<close> or the literal's text).
\<close>

datatype Expr =
    StarExpr Expr
  | ArrayType "Expr option" Expr
  | Ident string
  | SelectorExpr Expr string
  | BasicLit string
  | StructType "Field list"
  | InterfaceType
  | OtherExpr
and Field = Field (Names: "string list") (FType: Expr) (Tag: "string option")

text \<open>
  One dimension of the size annotations.  \<^verbatim>\<open>extractSSZDimensions\<close> and the dimension type
  with its methods \<^verbatim>\<open>IsVector, IsList, IsBitlist, VectorLen, ListLen\<close> are not among the
  sources, so a dimension is the record of what the five methods return, and
  \<^verbatim>\<open>extractSSZDimensions\<close> is a parameter of the builder, as is \<^verbatim>\<open>strconv.ParseUint(_, 0, 64)\<close>
  of Go's library.
\<close>

record dim =
  IsVector :: bool
  IsList :: bool
  IsBitlist :: bool
  VectorLen :: int
  ListLen :: int

record ext =
  extractSSZDimensions :: "string \<Rightarrow> error + dim list"
  ParseUint :: "string \<Rightarrow> 64 word option"

text \<open>\<^verbatim>\<open>struct astStruct\<close>; \<^verbatim>\<open>obj\<close> and \<^verbatim>\<open>typ\<close> may be \<^verbatim>\<open>nil\<close>.\<close>

record astStruct =
  a_name :: string
  a_obj :: "Field list option"
  a_packName :: string
  a_typ :: "Expr option"
  a_implFunc :: bool
  a_isRef :: bool

section \<open>The type model builder\<close>

text \<open>Writes to a node: its scalar fields, and its slice of field nodes.\<close>

fun with_hdr :: "(hdr \<Rightarrow> hdr) \<Rightarrow> Value \<Rightarrow> Value" where
  "with_hdr g (Value h fs el) = Value (g h) fs el"

fun with_o :: "Value list \<Rightarrow> Value \<Rightarrow> Value" where
  "with_o xs (Value h fs el) = Value h xs el"

text \<open>
  \<^verbatim>\<open>func (v *Value) copy() *Value\<close> on values: the scalar fields are copied, every field node
  and the element node (when not \<^verbatim>\<open>nil\<close>) are copied recursively.  Section
  \<open>The store\<close> below has the same function on a heap of nodes, where sharing shows.
\<close>

fun copy :: "Value \<Rightarrow> Value" where
  "copy (Value h fs el) =
     Value h (map copy fs) (case el of None \<Rightarrow> None | Some x \<Rightarrow> Some (copy x))"

text \<open>\<^verbatim>\<open>env.getRawItemByName\<close>: the first item of that name.\<close>

fun getRawItemByName :: "astStruct list \<Rightarrow> string \<Rightarrow> astStruct option" where
  "getRawItemByName [] nm = None"
| "getRawItemByName (item # rest) nm =
     (if a_name item = nm then Some item else getRawItemByName rest nm)"

text \<open>
  The steps of one iteration of the loop over the dimensions in \<^verbatim>\<open>parseASTFieldType\<close>
  that do not recurse: the two assignments from the dimension, the parsed length of a
  literal array, and the two checks against it.
\<close>

definition apply_dim :: "dim \<Rightarrow> hdr \<Rightarrow> hdr" where
  "apply_dim d h =
     (let h1 = (if IsVector d then h\<lparr>f_t := TypeVector, f_s := word_of_int (VectorLen d)\<rparr> else h)
      in if IsList d
         then h1\<lparr>f_t := TypeList, f_m := word_of_int (ListLen d), f_s := word_of_int (ListLen d)\<rparr>
         else h1)"

definition array_size :: "ext \<Rightarrow> Expr option \<Rightarrow> error + 64 word option" where
  "array_size X len =
     (case len of
        None \<Rightarrow> Inr None
      | Some (BasicLit lit) \<Rightarrow>
          (case ParseUint X lit of
             None \<Rightarrow> Inl (Err ''Could not parse array length for field'')
           | Some a \<Rightarrow> Inr (Some a))
      | Some _ \<Rightarrow> Inl (Err ''failed to parse field. byte array definition not understood by go/ast''))"

definition check_size :: "64 word option \<Rightarrow> hdr \<Rightarrow> error + hdr" where
  "check_size astSize h =
     (case astSize of
        None \<Rightarrow> Inr h
      | Some a \<Rightarrow>
          (let h1 = h\<lparr>f_c := True\<rparr> in
           if f_t h1 \<noteq> TypeVector then Inl (Err ''unexpected type for fixed size array'')
           else if f_s h1 \<noteq> a
             then Inl (Err ''Unexpected mismatch between ssz-size and array fixed size'')
           else Inr h1))"

text \<open>The byte case of the loop: the kind becomes \<^verbatim>\<open>TypeBytes\<close>, or \<^verbatim>\<open>TypeBitList\<close>.\<close>

definition byte_dim :: "dim \<Rightarrow> hdr \<Rightarrow> hdr" where
  "byte_dim d h =
     (let h1 = h\<lparr>f_t := TypeBytes\<rparr>;
          h2 = (if IsVector d then h1\<lparr>f_fixed := True\<rparr> else h1)
      in if IsBitlist d then h2\<lparr>f_t := TypeBitList\<rparr> else h2)"

text \<open>
  A parsed file (\<^verbatim>\<open>ast.File\<close>): the package name, the declarations and the imports (the
  optional name and the quoted path of each).  Of a function declaration the builder reads
  the receiver list (\<^verbatim>\<open>nil\<close> for a plain function), the name, and the types of the
  parameters and of the results as \<^verbatim>\<open>format.Node\<close> prints them, one text per entry of the
  list; the result list of a function without results is \<^verbatim>\<open>nil\<close>.
\<close>

datatype Spec = TypeSpec string Expr | OtherSpec

datatype Decl =
    GenDecl "Spec list"
  | FuncDecl (Recv: "Expr list option") (FName: string) (Params: "string list")
      (Results: "string list option")
  | OtherDecl

record File =
  PkgName :: string
  Decls :: "Decl list"
  Imports :: "(string option \<times> string) list"

text \<open>\<^verbatim>\<open>struct astImport\<close> and \<^verbatim>\<open>struct astResult\<close>.\<close>

record astImport =
  i_alias :: string
  i_path :: string

record astResult =
  r_objs :: "astStruct list"
  r_funcs :: "string list"
  r_packName :: string

text \<open>
  The environment \<^verbatim>\<open>struct env\<close>, without the source path and the package name.  The Go maps
  \<^verbatim>\<open>files\<close>, \<^verbatim>\<open>include\<close> and \<^verbatim>\<open>order\<close> are lists of pairs: a loop over a Go map visits the
  entries in an order that the language leaves open, and the list gives the order of one
  run.  \<^verbatim>\<open>objs\<close> is only looked up and stored into, and \<^verbatim>\<open>excludeTypeNames\<close> is only
  looked up (a missing key reads \<^verbatim>\<open>false\<close>).
\<close>

record env =
  e_include :: "(string \<times> File) list"
  e_files :: "(string \<times> File) list"
  e_raw :: "astStruct list"
  e_objs :: "string \<Rightarrow> Value option"
  e_order :: "(string \<times> string list) list"
  e_targets :: "string list"
  e_imports :: "astImport list"
  e_excludeTypeNames :: "string \<Rightarrow> bool"

text \<open>
  \<^verbatim>\<open>encodeItem\<close>, \<^verbatim>\<open>parseASTStructType\<close> (its loop over the fields is \<open>parseFields\<close>, with the
  container built so far) and \<^verbatim>\<open>parseASTFieldType\<close> (its loop over the dimensions is
  \<open>parseDims\<close>, with the rest of the dimensions, the parts \<^verbatim>\<open>Len\<close> and \<^verbatim>\<open>Elt\<close> of
  \<^verbatim>\<open>collectionExpr\<close> and the node \<^verbatim>\<open>collection\<close>; it returns that node as it is when the
  loop ends).  The environment is passed and returned.  A declared type may refer to
  itself, and then the Go recursion does not end; the first argument bounds the number of
  nested builds of named types, and \<open>Inl OutOfFuel\<close> says that the bound was reached.
  The parameter \<^verbatim>\<open>name\<close> of \<^verbatim>\<open>parseASTFieldType\<close> only feeds the texts of errors and is
  left out.  An \<^verbatim>\<open>error\<close> of \<^verbatim>\<open>encodeItem\<close> is rewrapped by its callers as in the source;
  a panic is not.
\<close>

function encodeItem :: "ext \<Rightarrow> nat \<Rightarrow> env \<Rightarrow> string \<Rightarrow> string \<Rightarrow> error + Value \<times> env"
  and parseFields :: "ext \<Rightarrow> nat \<Rightarrow> env \<Rightarrow> Value \<Rightarrow> Field list \<Rightarrow> error + Value \<times> env"
  and parseASTFieldType :: "ext \<Rightarrow> nat \<Rightarrow> env \<Rightarrow> string \<Rightarrow> Expr \<Rightarrow> error + Value option \<times> env"
  and parseDims ::
    "ext \<Rightarrow> nat \<Rightarrow> env \<Rightarrow> string \<Rightarrow> dim list \<Rightarrow> Expr option \<Rightarrow> Expr \<Rightarrow> Value \<Rightarrow> error + Value \<times> env"
where
  "encodeItem X n e nm tags =
     (case e_objs e nm of
        Some v \<Rightarrow> Inr (copy v, e)
      | None \<Rightarrow>
          (case getRawItemByName (e_raw e) nm of
             None \<Rightarrow> Inl (Err ''could not find struct with name'')
           | Some raw \<Rightarrow>
               (case n of
                  0 \<Rightarrow> Inl OutOfFuel
                | Suc k \<Rightarrow>
                    (case (if a_implFunc raw
                           then Inr (Some (Value (hdr0\<lparr>f_t := TypeReference,
                                    f_s := (case getTagsInt tags ''ssz-size'' of
                                              None \<Rightarrow> 0 | Some sz \<Rightarrow> sz),
                                    f_noPtr := (a_obj raw = None)\<rparr>) [] None), e)
                           else (case a_obj raw of
                                   Some flds \<Rightarrow>
                                     (case parseFields X k e
                                             (Value (hdr0\<lparr>f_name := nm, f_t := TypeContainer\<rparr>) [] None)
                                             flds of
                                        Inl err \<Rightarrow> Inl err
                                      | Inr (v, e1) \<Rightarrow> Inr (Some v, e1))
                                 | None \<Rightarrow>
                                     (case a_typ raw of
                                        None \<Rightarrow> Inl Panic
                                      | Some typ \<Rightarrow> parseASTFieldType X k e tags typ))) of
                       Inl (Err msg) \<Rightarrow> Inl (Err ''failed to encode'')
                     | Inl err \<Rightarrow> Inl err
                     | Inr (None, e1) \<Rightarrow> Inl Panic
                     | Inr (Some v, e1) \<Rightarrow>
                         (let v1 = with_hdr (\<lambda>h. h\<lparr>f_name := nm, f_obj := nm\<rparr>) v
                          in Inr (copy v1, e1\<lparr>e_objs := (e_objs e1)(nm \<mapsto> v1)\<rparr>))))))"
| "parseFields X n e v [] = Inr (v, e)"
| "parseFields X n e v (f # rest) =
     (if length (Names f) \<noteq> 1 then parseFields X n e v rest
      else
        (case isExportedField (hd (Names f)) of
           Inl err \<Rightarrow> Inl err
         | Inr exported \<Rightarrow>
             if \<not> exported then parseFields X n e v rest
             else if HasPrefix (hd (Names f)) ''XXX_'' then parseFields X n e v rest
             else
               (case parseASTFieldType X n e (case Tag f of None \<Rightarrow> [] | Some tg \<Rightarrow> tg) (FType f) of
                  Inl err \<Rightarrow> Inl err
                | Inr (None, e1) \<Rightarrow> parseFields X n e1 v rest
                | Inr (Some elem, e1) \<Rightarrow>
                    parseFields X n e1
                      (with_o (v_o v @ [with_hdr (\<lambda>h. h\<lparr>f_name := hd (Names f)\<rparr>) elem]) v) rest)))"
| "parseASTFieldType X n e tags expr =
     (if getTags tags ''ssz'' = Some ''-'' then Inr (None, e)
      else
        (case expr of
           StarExpr x \<Rightarrow>
             (case x of
                Ident nm \<Rightarrow>
                  (case encodeItem X n e nm tags of
                     Inl err \<Rightarrow> Inl err
                   | Inr (v, e1) \<Rightarrow> Inr (Some v, e1))
              | SelectorExpr x2 sel \<Rightarrow>
                  (case x2 of
                     Ident rf \<Rightarrow>
                       (case encodeItem X n e sel tags of
                          Inl err \<Rightarrow> Inl err
                        | Inr (v, e1) \<Rightarrow> Inr (Some (with_hdr (\<lambda>h. h\<lparr>f_ref := rf\<rparr>) v), e1))
                   | _ \<Rightarrow> Inl Panic)
              | _ \<Rightarrow> Inl (Err ''cannot handle''))
         | ArrayType len elt \<Rightarrow>
             (case extractSSZDimensions X tags of
                Inl err \<Rightarrow> Inl err
              | Inr dims \<Rightarrow>
                  (case parseDims X n e tags dims len elt Value0 of
                     Inl err \<Rightarrow> Inl err
                   | Inr (outer, e1) \<Rightarrow> Inr (Some outer, e1)))
         | Ident nm \<Rightarrow>
             (if nm = ''uint64'' then Inr (Some (Value (hdr0\<lparr>f_t := TypeUint, f_s := 8\<rparr>) [] None), e)
              else if nm = ''uint32'' then Inr (Some (Value (hdr0\<lparr>f_t := TypeUint, f_s := 4\<rparr>) [] None), e)
              else if nm = ''uint16'' then Inr (Some (Value (hdr0\<lparr>f_t := TypeUint, f_s := 2\<rparr>) [] None), e)
              else if nm = ''uint8'' then Inr (Some (Value (hdr0\<lparr>f_t := TypeUint, f_s := 1\<rparr>) [] None), e)
              else if nm = ''bool'' then Inr (Some (Value (hdr0\<lparr>f_t := TypeBool, f_s := 1\<rparr>) [] None), e)
              else
                (case encodeItem X n e nm tags of
                   Inl (Err msg) \<Rightarrow> Inl (Err ''type not found'')
                 | Inl err \<Rightarrow> Inl err
                 | Inr (vv, e1) \<Rightarrow> Inr (Some vv, e1)))
         | SelectorExpr x sel \<Rightarrow>
             (case x of
                Ident nm \<Rightarrow>
                  (if sel = ''Bitlist'' then
                     (case getTagsInt tags ''ssz-max'' of
                        None \<Rightarrow> Inl (Err ''bitlist does not have ssz-max tag'')
                      | Some maxSize \<Rightarrow>
                          Inr (Some (Value (hdr0\<lparr>f_t := TypeBitList, f_m := maxSize, f_s := maxSize\<rparr>)
                                 [] None), e))
                   else if HasPrefix sel ''Bitvector'' then
                     (case extractSSZDimensions X tags of
                        Inl err \<Rightarrow> Inl (Err ''failed to parse ssz-size tag for bitvector'')
                      | Inr dims \<Rightarrow>
                          if length dims < 1
                            then Inl (Err ''did not find any ssz tags for the bitvector'')
                          else if \<not> IsVector (last dims)
                            then Inl (Err ''bitvector tag parse failed (no ssz-size for last dim)'')
                          else Inr (Some (Value (hdr0\<lparr>f_t := TypeBytes, f_fixed := True,
                                       f_s := word_of_int (VectorLen (last dims))\<rparr>) [] None), e))
                   else
                     (case encodeItem X n e sel tags of
                        Inl err \<Rightarrow> Inl err
                      | Inr (vv, e1) \<Rightarrow>
                          Inr (Some (with_hdr (\<lambda>h. h\<lparr>f_ref := nm, f_noPtr := True\<rparr>) vv), e1)))
              | _ \<Rightarrow> Inl Panic)
         | _ \<Rightarrow> Inl Panic))"
| "parseDims X n e tags [] len elt collection = Inr (collection, e)"
| "parseDims X n e tags (d # dims) len elt collection =
     (case array_size X len of
        Inl err \<Rightarrow> Inl err
      | Inr astSize \<Rightarrow>
          (case check_size astSize (apply_dim d (hdr collection)) of
             Inl err \<Rightarrow> Inl err
           | Inr h \<Rightarrow>
               (case elt of
                  ArrayType len2 elt2 \<Rightarrow>
                    (case parseDims X n e tags dims len2 elt2 Value0 of
                       Inl err \<Rightarrow> Inl err
                     | Inr (inner, e1) \<Rightarrow>
                         Inr (Value h (v_o collection) (Some inner), e1))
                | Ident nm \<Rightarrow>
                    (if nm = ''byte''
                       then parseDims X n e tags dims len elt
                              (Value (byte_dim d h) (v_o collection) (v_e collection))
                     else
                       (case parseASTFieldType X n e tags elt of
                          Inl err \<Rightarrow> Inl err
                        | Inr (element, e1) \<Rightarrow>
                            parseDims X n e1 tags dims len elt (Value h (v_o collection) element)))
                | _ \<Rightarrow>
                    (case parseASTFieldType X n e tags elt of
                       Inl err \<Rightarrow> Inl err
                     | Inr (element, e1) \<Rightarrow>
                         parseDims X n e1 tags dims len elt (Value h (v_o collection) element)))))"
  by pat_completeness auto
termination
  apply (relation "inv_image (less_than <*lex*> less_than <*lex*> less_than)
        (\<lambda>x. case x of
           Inl (Inl (X, n, e, nm, tags)) \<Rightarrow> (n, 0, 0)
         | Inl (Inr (X, n, e, v, flds)) \<Rightarrow> (n, 2 + 2 * size_list size flds, 0)
         | Inr (Inl (X, n, e, tags, expr)) \<Rightarrow> (n, 1 + 2 * size expr, 0)
         | Inr (Inr (X, n, e, tags, dims, len, elt, collection)) \<Rightarrow>
             (n, 2 + 2 * size elt, length dims))")
  apply (auto split: if_splits)
  subgoal for f by (cases f) simp
  done



text \<open>
  The fields of a struct that the loop of \<^verbatim>\<open>parseASTStructType\<close> appends, by the tests the
  code makes: one name; \<^verbatim>\<open>isExportedField\<close>, which compares the first byte of the name with
  \<^verbatim>\<open>Z\<close>; no prefix \<^verbatim>\<open>XXX_\<close>; and \<^verbatim>\<open>getTags\<close> does not return \<^verbatim>\<open>-\<close> for \<^verbatim>\<open>ssz\<close>, which it does
  not when it stops at an earlier part of the tag.
\<close>

definition kept_field :: "Field \<Rightarrow> bool" where
  "kept_field f =
     (length (Names f) = 1 \<and> isExportedField (hd (Names f)) = Inr True \<and>
      \<not> HasPrefix (hd (Names f)) ''XXX_'' \<and>
      getTags (case Tag f of None \<Rightarrow> [] | Some tg \<Rightarrow> tg) ''ssz'' \<noteq> Some ''-'')"

subsection \<open>The listed fields, in the words of the specification\<close>






text \<open>
  An instance of the two parameters for the examples below.  It is not a model of the
  two functions: every tag string is given the dimensions \<^verbatim>\<open>ds\<close>, and of the literals only
  \<^verbatim>\<open>32\<close>, the one literal the examples contain, is read, to the number that
  \<^verbatim>\<open>strconv.ParseUint(_, 0, 64)\<close> gives for it.  The theorems hold for every value of the
  parameters.
\<close>

definition ext_fixed :: "dim list \<Rightarrow> ext" where
  "ext_fixed ds =
     \<lparr>extractSSZDimensions = (\<lambda>tags. Inr ds),
      ParseUint = (\<lambda>lit. if lit = ''32'' then Some 32 else None)\<rparr>"

definition vector_dim :: "int \<Rightarrow> dim" where
  "vector_dim k = \<lparr>IsVector = True, IsList = False, IsBitlist = False, VectorLen = k, ListLen = 0\<rparr>"

definition list_dim :: "int \<Rightarrow> dim" where
  "list_dim k = \<lparr>IsVector = False, IsList = True, IsBitlist = False, VectorLen = 0, ListLen = k\<rparr>"


section \<open>Reading the declarations\<close>

text \<open>
  \<^verbatim>\<open>isSpecificFunc\<close>: its local \<^verbatim>\<open>check\<close> compares the length and then every printed type,
  which is equality of the two lists; on the \<^verbatim>\<open>nil\<close> result list of a function without
  results, \<^verbatim>\<open>types.List\<close> is a nil dereference.  The parameters are checked first.
\<close>

definition isSpecificFunc ::
  "string list \<Rightarrow> string list option \<Rightarrow> string list \<Rightarrow> string list \<Rightarrow> error + bool" where
  "isSpecificFunc params results ins outs =
     (if params \<noteq> ins then Inr False
      else (case results of None \<Rightarrow> Inl Panic | Some rs \<Rightarrow> Inr (rs = outs)))"

definition isFuncDecl :: "string \<Rightarrow> string list \<Rightarrow> string list option \<Rightarrow> error + bool" where
  "isFuncDecl nm params results =
     (if nm = ''SizeSSZ'' then isSpecificFunc params results [] [''int'']
      else if nm = ''MarshalSSZTo''
        then isSpecificFunc params results [''[]byte''] [''[]byte'', ''error'']
      else if nm = ''UnmarshalSSZ'' then isSpecificFunc params results [''[]byte''] [''error'']
      else if nm = ''HashTreeRootWith''
        then isSpecificFunc params results [''*ssz.Hasher''] [''error'']
      else Inr False)"

text \<open>
  \<^verbatim>\<open>decodeASTStruct\<close>.  \<open>decodeSpecs\<close> is the loop over the specs of one declaration;
  \<open>bump\<close> is \<^verbatim>\<open>funcRefs[objName]++\<close> on the counters, kept as a list of pairs in the order
  of first use; \<open>decodeDecls\<close> is the loop over the declarations.
\<close>

fun decodeSpecs :: "string \<Rightarrow> Spec list \<Rightarrow> astStruct list \<Rightarrow> astStruct list" where
  "decodeSpecs packName [] objs = objs"
| "decodeSpecs packName (OtherSpec # rest) objs = decodeSpecs packName rest objs"
| "decodeSpecs packName (TypeSpec nm ty # rest) objs =
     (let obj = \<lparr>a_name = nm,
                 a_obj = (case ty of StructType flds \<Rightarrow> Some flds | _ \<Rightarrow> None),
                 a_packName = packName,
                 a_typ = (case ty of StructType flds \<Rightarrow> None | InterfaceType \<Rightarrow> None | _ \<Rightarrow> Some ty),
                 a_implFunc = False, a_isRef = False\<rparr>
      in if a_obj obj \<noteq> None \<or> a_typ obj \<noteq> None
         then decodeSpecs packName rest (objs @ [obj])
         else decodeSpecs packName rest objs)"

fun bump :: "string \<Rightarrow> (string \<times> nat) list \<Rightarrow> (string \<times> nat) list" where
  "bump nm [] = [(nm, 1)]"
| "bump nm ((k, cnt) # rest) = (if k = nm then (k, cnt + 1) # rest else (k, cnt) # bump nm rest)"

fun decodeDecls ::
  "string \<Rightarrow> Decl list \<Rightarrow> astStruct list \<Rightarrow> (string \<times> nat) list \<Rightarrow>
     error + astStruct list \<times> (string \<times> nat) list" where
  "decodeDecls packName [] objs funcRefs = Inr (objs, funcRefs)"
| "decodeDecls packName (GenDecl specs # rest) objs funcRefs =
     decodeDecls packName rest (decodeSpecs packName specs objs) funcRefs"
| "decodeDecls packName (OtherDecl # rest) objs funcRefs = decodeDecls packName rest objs funcRefs"
| "decodeDecls packName (FuncDecl recv nm params results # rest) objs funcRefs =
     (case recv of
        None \<Rightarrow> decodeDecls packName rest objs funcRefs
      | Some [] \<Rightarrow> Inl Panic
      | Some (StarExpr (Ident objName) # _) \<Rightarrow>
          (case isFuncDecl nm params results of
             Inl err \<Rightarrow> Inl err
           | Inr ok \<Rightarrow>
               decodeDecls packName rest objs (if ok then bump objName funcRefs else funcRefs))
      | Some _ \<Rightarrow> decodeDecls packName rest objs funcRefs)"

definition decodeASTStruct :: "File \<Rightarrow> error + astResult" where
  "decodeASTStruct file =
     (case decodeDecls (PkgName file) (Decls file) [] [] of
        Inl err \<Rightarrow> Inl err
      | Inr (objs, funcRefs) \<Rightarrow>
          Inr \<lparr>r_objs = objs,
               r_funcs = map fst (filter (\<lambda>kc. snd kc = 4) funcRefs),
               r_packName = PkgName file\<rparr>)"

text \<open>\<^verbatim>\<open>decodeASTImports\<close>; \<^verbatim>\<open>trimQuotes\<close> is \<^verbatim>\<open>strings.Trim(a, "\"")\<close>.\<close>

fun decodeASTImports_loop :: "(string option \<times> string) list \<Rightarrow> astImport list" where
  "decodeASTImports_loop [] = []"
| "decodeASTImports_loop ((nm, path) # rest) =
     (if nm = Some ''_'' then decodeASTImports_loop rest
      else \<lparr>i_alias = (case nm of None \<Rightarrow> [] | Some a \<Rightarrow> a), i_path = Trim path [CHR 0x22]\<rparr>
             # decodeASTImports_loop rest)"

definition decodeASTImports :: "File \<Rightarrow> astImport list" where
  "decodeASTImports file = decodeASTImports_loop (Imports file)"

section \<open>Building the model of a schema\<close>

text \<open>The closures of \<^verbatim>\<open>generateIR\<close>, with \<^verbatim>\<open>e.raw\<close> and \<^verbatim>\<open>e.imports\<close> passed and returned.\<close>

fun checkObjByPackage :: "astStruct list \<Rightarrow> string \<Rightarrow> string \<Rightarrow> astStruct option" where
  "checkObjByPackage [] packName nm = None"
| "checkObjByPackage (item # rest) packName nm =
     (if a_name item = nm \<and> a_packName item = packName then Some item
      else checkObjByPackage rest packName nm)"

fun addStructs :: "astStruct list \<Rightarrow> bool \<Rightarrow> astStruct list \<Rightarrow> error + astStruct list" where
  "addStructs [] isRef raw = Inr raw"
| "addStructs (i # rest) isRef raw =
     (if checkObjByPackage raw (a_packName i) (a_name i) \<noteq> None
        then Inl (Err ''two structs share the same name'')
      else addStructs rest isRef (raw @ [i\<lparr>a_isRef := isRef\<rparr>]))"

text \<open>
  \<^verbatim>\<open>v.implFunc = true\<close> on the item that \<^verbatim>\<open>checkObjByPackage\<close> finds: the item is shared
  with \<^verbatim>\<open>e.raw\<close>, so the write is a write to the first item of that package and name.
\<close>

fun setImplFunc :: "astStruct list \<Rightarrow> string \<Rightarrow> string \<Rightarrow> astStruct list" where
  "setImplFunc [] packName nm = []"
| "setImplFunc (item # rest) packName nm =
     (if a_name item = nm \<and> a_packName item = packName then item\<lparr>a_implFunc := True\<rparr> # rest
      else item # setImplFunc rest packName nm)"

fun checkImplFunc :: "string list \<Rightarrow> string \<Rightarrow> astStruct list \<Rightarrow> error + astStruct list" where
  "checkImplFunc [] packName raw = Inr raw"
| "checkImplFunc (nm # rest) packName raw =
     (if checkObjByPackage raw packName nm = None then Inl (Err ''cannot find struct'')
      else checkImplFunc rest packName (setImplFunc raw packName nm))"

fun addImports :: "astImport list \<Rightarrow> astImport list \<Rightarrow> error + astImport list" where
  "addImports [] imps = Inr imps"
| "addImports (i # rest) imps =
     (if \<exists>j \<in> set imps. i_path j = i_path i \<and> i_alias i \<noteq> i_alias j
        then Inl (Err ''the same package is imported twice by different files with different aliases'')
      else if \<exists>j \<in> set imps. i_path j = i_path i then addImports rest imps
      else addImports rest (imps @ [i]))"

text \<open>The five loops of \<^verbatim>\<open>generateIR\<close>, in its order.\<close>

fun importsOfFiles :: "(string \<times> File) list \<Rightarrow> astImport list \<Rightarrow> error + astImport list" where
  "importsOfFiles [] imps = Inr imps"
| "importsOfFiles ((fname, file) # rest) imps =
     (case addImports (decodeASTImports file) imps of
        Inl err \<Rightarrow> Inl err
      | Inr imps1 \<Rightarrow> importsOfFiles rest imps1)"

fun structsOfFiles ::
  "(string \<times> File) list \<Rightarrow> astStruct list \<Rightarrow> astResult list \<Rightarrow> (string \<times> string list) list \<Rightarrow>
     error + astStruct list \<times> astResult list \<times> (string \<times> string list) list" where
  "structsOfFiles [] raw astResults order = Inr (raw, astResults, order)"
| "structsOfFiles ((fname, file) # rest) raw astResults order =
     (case decodeASTStruct file of
        Inl err \<Rightarrow> Inl err
      | Inr res \<Rightarrow>
          (case addStructs (r_objs res) False raw of
             Inl err \<Rightarrow> Inl err
           | Inr raw1 \<Rightarrow>
               structsOfFiles rest raw1 (astResults @ [res])
                 (order @ [(fname, map a_name (r_objs res))])))"

fun structsOfInclude ::
  "(string \<times> File) list \<Rightarrow> astStruct list \<Rightarrow> astResult list \<Rightarrow>
     error + astStruct list \<times> astResult list" where
  "structsOfInclude [] raw astResults = Inr (raw, astResults)"
| "structsOfInclude ((fname, file) # rest) raw astResults =
     (case decodeASTStruct file of
        Inl err \<Rightarrow> Inl err
      | Inr res \<Rightarrow>
          (case addStructs (r_objs res) True raw of
             Inl err \<Rightarrow> Inl err
           | Inr raw1 \<Rightarrow> structsOfInclude rest raw1 (astResults @ [res])))"

fun implFuncsOf :: "astResult list \<Rightarrow> astStruct list \<Rightarrow> error + astStruct list" where
  "implFuncsOf [] raw = Inr raw"
| "implFuncsOf (res # rest) raw =
     (case checkImplFunc (r_funcs res) (r_packName res) raw of
        Inl err \<Rightarrow> Inl err
      | Inr raw1 \<Rightarrow> implFuncsOf rest raw1)"

fun contains :: "string \<Rightarrow> string list \<Rightarrow> bool" where
  "contains i [] = False"
| "contains i (a # j) = (if a = i then True else contains i j)"

fun encodeAll :: "ext \<Rightarrow> nat \<Rightarrow> env \<Rightarrow> astStruct list \<Rightarrow> error + env" where
  "encodeAll X n e [] = Inr e"
| "encodeAll X n e (obj # rest) =
     (if (if e_targets e = [] then True else contains (a_name obj) (e_targets e)) then
        (if a_isRef obj then encodeAll X n e rest
         else (case encodeItem X n e (a_name obj) [] of
                 Inl err \<Rightarrow> Inl err
               | Inr (v, e1) \<Rightarrow> encodeAll X n e1 rest))
      else encodeAll X n e rest)"

text \<open>
  The registration part of \<^verbatim>\<open>generateIR\<close> (its first four loops): the raw items with
  their flags, the orders and the imports.
\<close>

definition register :: "env \<Rightarrow> error + env" where
  "register e =
     (case importsOfFiles (e_files e) [] of
        Inl err \<Rightarrow> Inl err
      | Inr imps \<Rightarrow>
          (case structsOfFiles (e_files e) [] [] [] of
             Inl err \<Rightarrow> Inl err
           | Inr (raw1, results1, order) \<Rightarrow>
               (case structsOfInclude (e_include e) raw1 results1 of
                  Inl err \<Rightarrow> Inl err
                | Inr (raw2, results2) \<Rightarrow>
                    (case implFuncsOf results2 raw2 of
                       Inl err \<Rightarrow> Inl err
                     | Inr raw3 \<Rightarrow>
                         Inr (e\<lparr>e_raw := raw3, e_order := order, e_imports := imps\<rparr>)))))"

definition generateIR :: "ext \<Rightarrow> nat \<Rightarrow> env \<Rightarrow> error + env" where
  "generateIR X n e =
     (case register e of
        Inl err \<Rightarrow> Inl err
      | Inr e1 \<Rightarrow> encodeAll X n e1 (e_raw e1))"

section \<open>Printing\<close>

definition isBasicType :: "Value \<Rightarrow> bool" where
  "isBasicType v = (v_t v = TypeUint \<or> v_t v = TypeBool \<or> v_t v = TypeBytes)"

text \<open>\<^verbatim>\<open>detectImports\<close>: \<^verbatim>\<open>i.e.ref\<close> on a list or vector without element node panics.\<close>

fun detectImports_loop :: "Value list \<Rightarrow> string list \<Rightarrow> error + string list" where
  "detectImports_loop [] refs = Inr refs"
| "detectImports_loop (i # rest) refs =
     (case (case v_t i of
              TypeReference \<Rightarrow> Inr (if \<not> v_noPtr i then v_ref i else [])
            | TypeContainer \<Rightarrow> Inr (v_ref i)
            | TypeList \<Rightarrow> (case v_e i of None \<Rightarrow> Inl Panic | Some x \<Rightarrow> Inr (v_ref x))
            | TypeVector \<Rightarrow> (case v_e i of None \<Rightarrow> Inl Panic | Some x \<Rightarrow> Inr (v_ref x))
            | _ \<Rightarrow> Inr (v_ref i)) of
        Inl err \<Rightarrow> Inl err
      | Inr rf \<Rightarrow> detectImports_loop rest (if rf \<noteq> [] then refs @ [rf] else refs))"

definition detectImports :: "Value \<Rightarrow> error + string list" where
  "detectImports v = detectImports_loop (v_o v) []"

fun appendWithoutRepeated :: "string list \<Rightarrow> string list \<Rightarrow> string list" where
  "appendWithoutRepeated s0 [] = s0"
| "appendWithoutRepeated s0 (j # i) =
     (if \<not> contains j s0 then appendWithoutRepeated (s0 @ [j]) i else appendWithoutRepeated s0 i)"

text \<open>
  The loop of \<^verbatim>\<open>env.print\<close> over the names of one output.  The functions that render the
  four procedures of a type (\<^verbatim>\<open>e.size\<close>, \<^verbatim>\<open>e.marshal\<close>, \<^verbatim>\<open>e.unmarshal\<close>, \<^verbatim>\<open>e.hashTreeRoot\<close>) are
  not among the sources, so the entry appended to \<^verbatim>\<open>objs\<close> is the name of the type that
  the procedures are rendered for.  The loop returns the entries and the imports.
\<close>

fun print_loop :: "env \<Rightarrow> string list \<Rightarrow> string list \<Rightarrow> string list \<Rightarrow> error + string list \<times> string list" where
  "print_loop e [] objs imps = Inr (objs, imps)"
| "print_loop e (nm # order) objs imps =
     (if e_excludeTypeNames e nm then print_loop e order objs imps
      else
        (case e_objs e nm of
           None \<Rightarrow> print_loop e order objs imps
         | Some obj \<Rightarrow>
             (case detectImports obj of
                Inl err \<Rightarrow> Inl err
              | Inr refs \<Rightarrow>
                  (case isFixed obj of
                     Inl err \<Rightarrow> Inl err
                   | Inr fx \<Rightarrow>
                       if fx \<and> isBasicType obj
                         then print_loop e order objs (appendWithoutRepeated imps refs)
                       else print_loop e order (objs @ [nm]) (appendWithoutRepeated imps refs)))))"

text \<open>
  \<^verbatim>\<open>env.print\<close> after the hash of the sources: no output (\<open>None\<close>) when no entry was
  appended, else the entries and the imports that the template is filled with.
\<close>

definition print :: "env \<Rightarrow> string list \<Rightarrow> error + (string list \<times> string list) option" where
  "print e order =
     (case print_loop e order [] [] of
        Inl err \<Rightarrow> Inl err
      | Inr (objs, imps) \<Rightarrow> if objs = [] then Inr None else Inr (Some (objs, imps)))"

text \<open>The names that the loop of \<^verbatim>\<open>print\<close> renders procedures for.\<close>

definition printed :: "env \<Rightarrow> string \<Rightarrow> bool" where
  "printed e nm =
     (\<not> e_excludeTypeNames e nm \<and>
      (case e_objs e nm of
         None \<Rightarrow> False
       | Some obj \<Rightarrow> \<not> (isFixed obj = Inr True \<and> isBasicType obj)))"

text \<open>
  For the statements about \<^verbatim>\<open>decodeASTStruct\<close>: a declaration that its loop counts for the
  type \<open>nm\<close> (a function with receiver \<^verbatim>\<open>*nm\<close> that passes \<^verbatim>\<open>isFuncDecl\<close>), the number of
  such declarations in a file, and the value of a counter of \<^verbatim>\<open>funcRefs\<close>.
\<close>

definition ssz_method :: "string \<Rightarrow> Decl \<Rightarrow> bool" where
  "ssz_method nm dec =
     (case dec of
        FuncDecl recv fn params results \<Rightarrow>
          (case recv of
             Some (StarExpr (Ident objName) # _) \<Rightarrow>
               objName = nm \<and> isFuncDecl fn params results = Inr True
           | _ \<Rightarrow> False)
      | _ \<Rightarrow> False)"

definition count_methods :: "File \<Rightarrow> string \<Rightarrow> nat" where
  "count_methods file nm = length (filter (ssz_method nm) (Decls file))"

definition counter :: "(string \<times> nat) list \<Rightarrow> string \<Rightarrow> nat" where
  "counter funcRefs nm = (case map_of funcRefs nm of None \<Rightarrow> 0 | Some cnt \<Rightarrow> cnt)"

text \<open>The four method names that \<^verbatim>\<open>isFuncDecl\<close> knows.\<close>

definition ssz_names :: "string list" where
  "ssz_names = [''SizeSSZ'', ''MarshalSSZTo'', ''UnmarshalSSZ'', ''HashTreeRootWith'']"

section \<open>The store\<close>

text \<open>
  The nodes as Go has them: cells of a heap that point to each other.  A pointer is
  \<open>None\<close> for \<^verbatim>\<open>nil\<close> or the address of a cell; the heap is the list of its cells, and
  \<^verbatim>\<open>new(Value)\<close> takes the next address.  The slice \<^verbatim>\<open>o\<close> is kept in the cell: no two nodes
  share the array of a slice, since \<^verbatim>\<open>copy\<close> makes a new one and \<^verbatim>\<open>parseASTStructType\<close>
  appends only to the slice of the node it has just made.
\<close>

record node =
  n_hdr :: hdr
  n_o :: "nat option list"
  n_e :: "nat option"

type_synonym heap = "node list"

text \<open>
  \<^verbatim>\<open>func (v *Value) copy() *Value\<close> on the store.  \<open>copy_h\<close> allocates \<^verbatim>\<open>vv\<close>, assigns
  \<^verbatim>\<open>*vv = *v\<close> (so \<^verbatim>\<open>vv.e\<close> is \<^verbatim>\<open>v.e\<close> for the moment), replaces \<^verbatim>\<open>vv.o\<close> by a new slice of
  \<^verbatim>\<open>nil\<close> entries, runs the loop \<open>copy_loop\<close>, which stores the copy of \<^verbatim>\<open>v.o[indx]\<close> into
  \<^verbatim>\<open>vv.o[indx]\<close> for every index, and then copies the element when \<^verbatim>\<open>v.e\<close> is not \<^verbatim>\<open>nil\<close>.
  A call on \<^verbatim>\<open>nil\<close> panics.  On a cyclic structure the Go recursion does not end; the first
  argument bounds the depth of the recursion.  The tests of addresses and indices against
  the lengths are never true on a heap that Go can build; they make the function total.
\<close>

function copy_h :: "nat \<Rightarrow> heap \<Rightarrow> nat option \<Rightarrow> error + nat \<times> heap"
  and copy_loop :: "nat \<Rightarrow> heap \<Rightarrow> nat \<Rightarrow> nat \<Rightarrow> nat \<Rightarrow> nat \<Rightarrow> error + heap"
where
  "copy_h k h p =
     (case p of
        None \<Rightarrow> Inl Panic
      | Some a \<Rightarrow>
          if length h \<le> a then Inl Panic
          else
            (case k of
               0 \<Rightarrow> Inl OutOfFuel
             | Suc j \<Rightarrow>
                 (case copy_loop j
                         (h @ [(h ! a)\<lparr>n_o := replicate (length (n_o (h ! a))) None\<rparr>])
                         a (length h) 0 (length (n_o (h ! a))) of
                    Inl err \<Rightarrow> Inl err
                  | Inr h2 \<Rightarrow>
                      (case n_e (h2 ! a) of
                         None \<Rightarrow> Inr (length h, h2)
                       | Some b \<Rightarrow>
                           (case copy_h j h2 (Some b) of
                              Inl err \<Rightarrow> Inl err
                            | Inr (c, h3) \<Rightarrow>
                                Inr (length h,
                                     h3[length h := (h3 ! length h)\<lparr>n_e := Some c\<rparr>]))))))"
| "copy_loop j h a vv indx n =
     (if n \<le> indx then Inr h
      else if length h \<le> a \<or> length (n_o (h ! a)) \<le> indx then Inl Panic
      else
        (case copy_h j h (n_o (h ! a) ! indx) of
           Inl err \<Rightarrow> Inl err
         | Inr (c, h1) \<Rightarrow>
             copy_loop j (h1[vv := (h1 ! vv)\<lparr>n_o := (n_o (h1 ! vv))[indx := Some c]\<rparr>])
               a vv (Suc indx) n))"
  by pat_completeness auto
termination
  by (relation "inv_image (less_than <*lex*> less_than)
        (\<lambda>x. case x of
           Inl (k, h, p) \<Rightarrow> (k, 0)
         | Inr (j, h, a, vv, indx, n) \<Rightarrow> (j, Suc (n - indx)))")
     auto

text \<open>
  The writes of a use site to the node it received: \<^verbatim>\<open>v.ref = ref\<close>, \<^verbatim>\<open>vv.noPtr = true\<close> and
  \<^verbatim>\<open>elem.name = name\<close> are writes to scalar fields of one cell.
\<close>

definition write_hdr :: "heap \<Rightarrow> nat \<Rightarrow> (hdr \<Rightarrow> hdr) \<Rightarrow> heap" where
  "write_hdr h a g = h[a := (h ! a)\<lparr>n_hdr := g (n_hdr (h ! a))\<rparr>]"

text \<open>
  The builder on the store.  The state is the heap and the registry \<^verbatim>\<open>e.objs\<close>, which maps a
  name to the address of its node; \<^verbatim>\<open>e.raw\<close> is only read and is an argument.
  \<^verbatim>\<open>&Value{...}\<close> is \<open>new_value\<close>: the new node has the next address, the length of the heap
  before.  \<^verbatim>\<open>collection.e = element\<close> is \<open>set_e\<close>, and \<^verbatim>\<open>v.o = append(v.o, elem)\<close> is
  \<open>append_o\<close>.  Every address that the builder writes to or reads from was returned by an
  allocation before.
\<close>

record store =
  s_heap :: heap
  s_objs :: "string \<Rightarrow> nat option"

definition new_node :: "hdr \<Rightarrow> node" where
  "new_node g = \<lparr>n_hdr = g, n_o = [], n_e = None\<rparr>"

definition new_value :: "store \<Rightarrow> hdr \<Rightarrow> store" where
  "new_value st g = st\<lparr>s_heap := s_heap st @ [new_node g]\<rparr>"

definition set_hdr :: "store \<Rightarrow> nat \<Rightarrow> (hdr \<Rightarrow> hdr) \<Rightarrow> store" where
  "set_hdr st a g = st\<lparr>s_heap := write_hdr (s_heap st) a g\<rparr>"

definition set_e :: "store \<Rightarrow> nat \<Rightarrow> nat option \<Rightarrow> store" where
  "set_e st a p = st\<lparr>s_heap := (s_heap st)[a := (s_heap st ! a)\<lparr>n_e := p\<rparr>]\<rparr>"

definition append_o :: "store \<Rightarrow> nat \<Rightarrow> nat \<Rightarrow> store" where
  "append_o st a el =
     st\<lparr>s_heap := (s_heap st)[a := (s_heap st ! a)\<lparr>n_o := n_o (s_heap st ! a) @ [Some el]\<rparr>]\<rparr>"

text \<open>
  \<^verbatim>\<open>encodeItem\<close>, \<^verbatim>\<open>parseASTStructType\<close> with its loop \<open>parseFields_h\<close> and
  \<^verbatim>\<open>parseASTFieldType\<close> with its loop \<open>parseDims_h\<close>, as in section
  \<open>The type model builder\<close>, with the nodes on the store: a function returns the address
  of the node where the Go function returns the pointer, the loops get the address of the
  container, respectively of \<^verbatim>\<open>collection\<close>, and write to that cell.  Both branches of
  \<^verbatim>\<open>encodeItem\<close> end in \<^verbatim>\<open>return v.copy(), nil\<close>, which is \<open>copy_h\<close> with \<^verbatim>\<open>v\<close> the node of
  the registry.  The first bound is that of the builder, on the nested builds of named
  types; the second is that of \<open>copy_h\<close>.
\<close>

function encodeItem_h ::
    "ext \<Rightarrow> nat \<Rightarrow> nat \<Rightarrow> astStruct list \<Rightarrow> store \<Rightarrow> string \<Rightarrow> string \<Rightarrow> error + nat \<times> store"
  and parseFields_h ::
    "ext \<Rightarrow> nat \<Rightarrow> nat \<Rightarrow> astStruct list \<Rightarrow> store \<Rightarrow> nat \<Rightarrow> Field list \<Rightarrow> error + store"
  and parseASTFieldType_h ::
    "ext \<Rightarrow> nat \<Rightarrow> nat \<Rightarrow> astStruct list \<Rightarrow> store \<Rightarrow> string \<Rightarrow> Expr \<Rightarrow> error + nat option \<times> store"
  and parseDims_h ::
    "ext \<Rightarrow> nat \<Rightarrow> nat \<Rightarrow> astStruct list \<Rightarrow> store \<Rightarrow> string \<Rightarrow> dim list \<Rightarrow> Expr option \<Rightarrow> Expr \<Rightarrow> nat \<Rightarrow>
     error + store"
where
  "encodeItem_h X n k raw st nm tags =
     (case s_objs st nm of
        Some a \<Rightarrow>
          (case copy_h k (s_heap st) (Some a) of
             Inl err \<Rightarrow> Inl err
           | Inr (c, h1) \<Rightarrow> Inr (c, st\<lparr>s_heap := h1\<rparr>))
      | None \<Rightarrow>
          (case getRawItemByName raw nm of
             None \<Rightarrow> Inl (Err ''could not find struct with name'')
           | Some item \<Rightarrow>
               (case n of
                  0 \<Rightarrow> Inl OutOfFuel
                | Suc j \<Rightarrow>
                    (case (if a_implFunc item
                           then Inr (Some (length (s_heap st)),
                                  new_value st (hdr0\<lparr>f_t := TypeReference,
                                    f_s := (case getTagsInt tags ''ssz-size'' of
                                              None \<Rightarrow> 0 | Some sz \<Rightarrow> sz),
                                    f_noPtr := (a_obj item = None)\<rparr>))
                           else (case a_obj item of
                                   Some flds \<Rightarrow>
                                     (case parseFields_h X j k raw
                                             (new_value st (hdr0\<lparr>f_name := nm, f_t := TypeContainer\<rparr>))
                                             (length (s_heap st)) flds of
                                        Inl err \<Rightarrow> Inl err
                                      | Inr st1 \<Rightarrow> Inr (Some (length (s_heap st)), st1))
                                 | None \<Rightarrow>
                                     (case a_typ item of
                                        None \<Rightarrow> Inl Panic
                                      | Some typ \<Rightarrow> parseASTFieldType_h X j k raw st tags typ))) of
                       Inl (Err msg) \<Rightarrow> Inl (Err ''failed to encode'')
                     | Inl err \<Rightarrow> Inl err
                     | Inr (None, st1) \<Rightarrow> Inl Panic
                     | Inr (Some a, st1) \<Rightarrow>
                         (case copy_h k
                                 (write_hdr (s_heap st1) a (\<lambda>h. h\<lparr>f_name := nm, f_obj := nm\<rparr>))
                                 (Some a) of
                            Inl err \<Rightarrow> Inl err
                          | Inr (c, h1) \<Rightarrow>
                              Inr (c, \<lparr>s_heap = h1, s_objs = (s_objs st1)(nm \<mapsto> a)\<rparr>))))))"
| "parseFields_h X n k raw st c [] = Inr st"
| "parseFields_h X n k raw st c (f # rest) =
     (if length (Names f) \<noteq> 1 then parseFields_h X n k raw st c rest
      else
        (case isExportedField (hd (Names f)) of
           Inl err \<Rightarrow> Inl err
         | Inr exported \<Rightarrow>
             if \<not> exported then parseFields_h X n k raw st c rest
             else if HasPrefix (hd (Names f)) ''XXX_'' then parseFields_h X n k raw st c rest
             else
               (case parseASTFieldType_h X n k raw st
                       (case Tag f of None \<Rightarrow> [] | Some tg \<Rightarrow> tg) (FType f) of
                  Inl err \<Rightarrow> Inl err
                | Inr (None, st1) \<Rightarrow> parseFields_h X n k raw st1 c rest
                | Inr (Some el, st1) \<Rightarrow>
                    parseFields_h X n k raw
                      (append_o (set_hdr st1 el (\<lambda>h. h\<lparr>f_name := hd (Names f)\<rparr>)) c el) c rest)))"
| "parseASTFieldType_h X n k raw st tags expr =
     (if getTags tags ''ssz'' = Some ''-'' then Inr (None, st)
      else
        (case expr of
           StarExpr x \<Rightarrow>
             (case x of
                Ident nm \<Rightarrow>
                  (case encodeItem_h X n k raw st nm tags of
                     Inl err \<Rightarrow> Inl err
                   | Inr (a, st1) \<Rightarrow> Inr (Some a, st1))
              | SelectorExpr x2 sel \<Rightarrow>
                  (case x2 of
                     Ident rf \<Rightarrow>
                       (case encodeItem_h X n k raw st sel tags of
                          Inl err \<Rightarrow> Inl err
                        | Inr (a, st1) \<Rightarrow> Inr (Some a, set_hdr st1 a (\<lambda>h. h\<lparr>f_ref := rf\<rparr>)))
                   | _ \<Rightarrow> Inl Panic)
              | _ \<Rightarrow> Inl (Err ''cannot handle''))
         | ArrayType len elt \<Rightarrow>
             (case extractSSZDimensions X tags of
                Inl err \<Rightarrow> Inl err
              | Inr dims \<Rightarrow>
                  (case parseDims_h X n k raw (new_value st hdr0) tags dims len elt
                          (length (s_heap st)) of
                     Inl err \<Rightarrow> Inl err
                   | Inr st1 \<Rightarrow> Inr (Some (length (s_heap st)), st1)))
         | Ident nm \<Rightarrow>
             (if nm = ''uint64''
                then Inr (Some (length (s_heap st)), new_value st (hdr0\<lparr>f_t := TypeUint, f_s := 8\<rparr>))
              else if nm = ''uint32''
                then Inr (Some (length (s_heap st)), new_value st (hdr0\<lparr>f_t := TypeUint, f_s := 4\<rparr>))
              else if nm = ''uint16''
                then Inr (Some (length (s_heap st)), new_value st (hdr0\<lparr>f_t := TypeUint, f_s := 2\<rparr>))
              else if nm = ''uint8''
                then Inr (Some (length (s_heap st)), new_value st (hdr0\<lparr>f_t := TypeUint, f_s := 1\<rparr>))
              else if nm = ''bool''
                then Inr (Some (length (s_heap st)), new_value st (hdr0\<lparr>f_t := TypeBool, f_s := 1\<rparr>))
              else
                (case encodeItem_h X n k raw st nm tags of
                   Inl (Err msg) \<Rightarrow> Inl (Err ''type not found'')
                 | Inl err \<Rightarrow> Inl err
                 | Inr (a, st1) \<Rightarrow> Inr (Some a, st1)))
         | SelectorExpr x sel \<Rightarrow>
             (case x of
                Ident nm \<Rightarrow>
                  (if sel = ''Bitlist'' then
                     (case getTagsInt tags ''ssz-max'' of
                        None \<Rightarrow> Inl (Err ''bitlist does not have ssz-max tag'')
                      | Some maxSize \<Rightarrow>
                          Inr (Some (length (s_heap st)),
                               new_value st (hdr0\<lparr>f_t := TypeBitList, f_m := maxSize, f_s := maxSize\<rparr>)))
                   else if HasPrefix sel ''Bitvector'' then
                     (case extractSSZDimensions X tags of
                        Inl err \<Rightarrow> Inl (Err ''failed to parse ssz-size tag for bitvector'')
                      | Inr dims \<Rightarrow>
                          if length dims < 1
                            then Inl (Err ''did not find any ssz tags for the bitvector'')
                          else if \<not> IsVector (last dims)
                            then Inl (Err ''bitvector tag parse failed (no ssz-size for last dim)'')
                          else Inr (Some (length (s_heap st)),
                                    new_value st (hdr0\<lparr>f_t := TypeBytes, f_fixed := True,
                                       f_s := word_of_int (VectorLen (last dims))\<rparr>)))
                   else
                     (case encodeItem_h X n k raw st sel tags of
                        Inl err \<Rightarrow> Inl err
                      | Inr (a, st1) \<Rightarrow>
                          Inr (Some a, set_hdr st1 a (\<lambda>h. h\<lparr>f_ref := nm, f_noPtr := True\<rparr>))))
              | _ \<Rightarrow> Inl Panic)
         | _ \<Rightarrow> Inl Panic))"
| "parseDims_h X n k raw st tags [] len elt c = Inr st"
| "parseDims_h X n k raw st tags (d # dims) len elt c =
     (case array_size X len of
        Inl err \<Rightarrow> Inl err
      | Inr astSize \<Rightarrow>
          (case check_size astSize (apply_dim d (n_hdr (s_heap st ! c))) of
             Inl err \<Rightarrow> Inl err
           | Inr hh \<Rightarrow>
               (case elt of
                  ArrayType len2 elt2 \<Rightarrow>
                    parseDims_h X n k raw
                      (set_e (new_value (set_hdr st c (\<lambda>h. hh)) hdr0) c (Some (length (s_heap st))))
                      tags dims len2 elt2 (length (s_heap st))
                | Ident nm \<Rightarrow>
                    (if nm = ''byte''
                       then parseDims_h X n k raw (set_hdr st c (\<lambda>h. byte_dim d hh)) tags dims len elt c
                     else
                       (case parseASTFieldType_h X n k raw (set_hdr st c (\<lambda>h. hh)) tags elt of
                          Inl err \<Rightarrow> Inl err
                        | Inr (element, st1) \<Rightarrow>
                            parseDims_h X n k raw (set_e st1 c element) tags dims len elt c))
                | _ \<Rightarrow>
                    (case parseASTFieldType_h X n k raw (set_hdr st c (\<lambda>h. hh)) tags elt of
                       Inl err \<Rightarrow> Inl err
                     | Inr (element, st1) \<Rightarrow>
                         parseDims_h X n k raw (set_e st1 c element) tags dims len elt c))))"
  by pat_completeness auto
termination
  apply (relation "inv_image (less_than <*lex*> less_than <*lex*> less_than)
        (\<lambda>x. case x of
           Inl (Inl (X, n, k, raw, st, nm, tags)) \<Rightarrow> (n, 0, 0)
         | Inl (Inr (X, n, k, raw, st, c, flds)) \<Rightarrow> (n, 2 + 2 * size_list size flds, 0)
         | Inr (Inl (X, n, k, raw, st, tags, expr)) \<Rightarrow> (n, 1 + 2 * size expr, 0)
         | Inr (Inr (X, n, k, raw, st, tags, dims, len, elt, c)) \<Rightarrow>
             (n, 2 + 2 * size elt, length dims))")
  apply (auto split: if_splits)
  subgoal for f by (cases f) simp
  done

text \<open>
  \<open>repr h S p v\<close>: in the heap \<open>h\<close> the pointer \<open>p\<close> leads to a structure of cells, all with
  addresses in \<open>S\<close>, that reads as the value \<open>v\<close>: the scalar fields agree, the slice has one
  pointer for every field node, and the element pointer is \<^verbatim>\<open>nil\<close> exactly when \<open>v\<close> has no
  element node.  The cell of a node is not among the cells of its field nodes and of its
  element node.
\<close>

fun repr :: "heap \<Rightarrow> nat set \<Rightarrow> nat option \<Rightarrow> Value \<Rightarrow> bool"
  and repr_list :: "heap \<Rightarrow> nat set \<Rightarrow> nat option list \<Rightarrow> Value list \<Rightarrow> bool" where
  "repr h S p (Value hv fs el) =
     (case p of
        None \<Rightarrow> False
      | Some a \<Rightarrow>
          a \<in> S \<and> a < length h \<and> n_hdr (h ! a) = hv \<and> repr_list h (S - {a}) (n_o (h ! a)) fs \<and>
          (case el of
             None \<Rightarrow> n_e (h ! a) = None
           | Some x \<Rightarrow> repr h (S - {a}) (n_e (h ! a)) x))"
| "repr_list h S [] [] = True"
| "repr_list h S (p # ps) (f # fs) = (repr h S p f \<and> repr_list h S ps fs)"
| "repr_list h S [] (f # fs) = False"
| "repr_list h S (p # ps) [] = False"

text \<open>The number of nested levels of a value: the recursion depth that its copy needs.\<close>

fun depth :: "Value \<Rightarrow> nat" and depth_list :: "Value list \<Rightarrow> nat" where
  "depth (Value hv fs el) =
     Suc (max (depth_list fs) (case el of None \<Rightarrow> 0 | Some x \<Rightarrow> depth x))"
| "depth_list [] = 0"
| "depth_list (f # fs) = max (depth f) (depth_list fs)"

text \<open>The cells that can be reached from a cell through the pointers of \<^verbatim>\<open>o\<close> and \<^verbatim>\<open>e\<close>.\<close>

inductive_set reach :: "heap \<Rightarrow> nat \<Rightarrow> nat set" for h :: heap and a :: nat where
  start: "a \<in> reach h a"
| field: "b \<in> reach h a \<Longrightarrow> b < length h \<Longrightarrow> Some c \<in> set (n_o (h ! b)) \<Longrightarrow> c \<in> reach h a"
| elem: "b \<in> reach h a \<Longrightarrow> b < length h \<Longrightarrow> n_e (h ! b) = Some c \<Longrightarrow> c \<in> reach h a"

text \<open>Two heaps hold the same cells at the addresses of a set.\<close>

definition agree :: "nat set \<Rightarrow> heap \<Rightarrow> heap \<Rightarrow> bool" where
  "agree S h g = (\<forall>a \<in> S. a < length h \<longrightarrow> a < length g \<and> g ! a = h ! a)"


text \<open>
  The registry of a state reads as values: every entry is the address of a structure of
  cells of the set \<open>G\<close>, all of them cells of the heap.
\<close>

definition reg_ok :: "store \<Rightarrow> nat set \<Rightarrow> bool" where
  "reg_ok st G =
     (G \<subseteq> {..<length (s_heap st)} \<and>
      (\<forall>nm a. s_objs st nm = Some a \<longrightarrow> (\<exists>v. repr (s_heap st) G (Some a) v)))"

text \<open>
  \<open>grown M st G st2 G2\<close>: what a part of the builder may do on the way from the state
  \<open>st\<close>, whose registry has the cells \<open>G\<close>, to the state \<open>st2\<close>, whose registry has the cells
  \<open>G2\<close>.  It allocates cells; of the cells of \<open>st\<close> it writes to those of \<open>M\<close> only; the
  cells that the registry gains are new cells; every entry of the registry stays at its
  address; and the registry of \<open>st2\<close> reads as values.
\<close>

definition grown :: "nat set \<Rightarrow> store \<Rightarrow> nat set \<Rightarrow> store \<Rightarrow> nat set \<Rightarrow> bool" where
  "grown M st G st2 G2 =
     (length (s_heap st) \<le> length (s_heap st2) \<and>
      (\<forall>a < length (s_heap st). a \<notin> M \<longrightarrow> s_heap st2 ! a = s_heap st ! a) \<and>
      G \<subseteq> G2 \<and> G2 - G \<subseteq> {length (s_heap st)..<length (s_heap st2)} \<and>
      reg_ok st2 G2 \<and>
      (\<forall>nm a. s_objs st nm = Some a \<longrightarrow> s_objs st2 nm = Some a))"

text \<open>
  \<open>owned st A p\<close>: the pointer \<open>p\<close> leads to a structure of cells of the set \<open>A\<close> that reads as
  a value.
\<close>

definition owned :: "store \<Rightarrow> nat set \<Rightarrow> nat option \<Rightarrow> bool" where
  "owned st A p = (\<exists>S v. repr (s_heap st) S p v \<and> S \<subseteq> A)"

section \<open>Examples\<close>

text \<open>Schemas and environments that the closed instances below evaluate.\<close>

definition size_tag :: "string \<Rightarrow> string" where
  "size_tag num = ''ssz-size:'' @ [CHR 0x22] @ num @ [CHR 0x22]"

definition ref_env :: env where
  "ref_env = \<lparr>e_include = [], e_files = [],
              e_raw = [\<lparr>a_name = ''R'', a_obj = Some [], a_packName = ''p'', a_typ = None,
                         a_implFunc = True, a_isRef = True\<rparr>],
              e_objs = Map.empty, e_order = [], e_targets = [], e_imports = [],
              e_excludeTypeNames = (\<lambda>nm. False)\<rparr>"

definition ref_node :: Value where
  "ref_node = Value (hdr0\<lparr>f_name := ''R'', f_obj := ''R'', f_t := TypeReference, f_s := 32\<rparr>) [] None"



definition env0 :: env where
  "env0 = \<lparr>e_include = [], e_files = [], e_raw = [], e_objs = Map.empty, e_order = [], e_targets = [], e_imports = [],
              e_excludeTypeNames = (\<lambda>nm. False)\<rparr>"


definition container_node :: Value where
  "container_node =
     Value (hdr0\<lparr>f_name := ''A'', f_obj := ''A'', f_t := TypeContainer\<rparr>)
       [Value (hdr0\<lparr>f_name := ''X'', f_t := TypeUint, f_s := 8\<rparr>) [] None] None"

definition alias_node :: Value where
  "alias_node = Value (hdr0\<lparr>f_name := ''U'', f_obj := ''U'', f_t := TypeUint, f_s := 8\<rparr>) [] None"

definition print_env :: "(string \<Rightarrow> bool) \<Rightarrow> env" where
  "print_env excl = env0\<lparr>e_objs := [''A'' \<mapsto> container_node, ''U'' \<mapsto> alias_node],
                        e_excludeTypeNames := excl\<rparr>"

text \<open>Two files of one package: the types in one, the methods in the other.\<close>

definition four_methods :: "string \<Rightarrow> Decl list" where
  "four_methods nm =
     [FuncDecl (Some [StarExpr (Ident nm)]) ''SizeSSZ'' [] (Some [''int'']),
      FuncDecl (Some [StarExpr (Ident nm)]) ''MarshalSSZTo'' [''[]byte''] (Some [''[]byte'', ''error'']),
      FuncDecl (Some [StarExpr (Ident nm)]) ''UnmarshalSSZ'' [''[]byte''] (Some [''error'']),
      FuncDecl (Some [StarExpr (Ident nm)]) ''HashTreeRootWith'' [''*ssz.Hasher''] (Some [''error''])]"

definition file_types :: File where
  "file_types =
     \<lparr>PkgName = ''p'',
      Decls = [GenDecl [TypeSpec ''T'' (StructType [Field [''A''] (Ident ''uint64'') None]),
                        TypeSpec ''S'' (StructType [Field [''B''] (Ident ''bool'') None])]],
      Imports = []\<rparr>"

definition file_methods :: File where
  "file_methods = \<lparr>PkgName = ''p'', Decls = four_methods ''T'' @ take 3 (four_methods ''S''), Imports = []\<rparr>"

definition env_split :: env where
  "env_split = env0\<lparr>e_files := [(''types.go'', file_types), (''methods.go'', file_methods)]\<rparr>"

definition raw_split :: "astStruct list" where
  "raw_split =
     [\<lparr>a_name = ''T'', a_obj = Some [Field [''A''] (Ident ''uint64'') None], a_packName = ''p'',
        a_typ = None, a_implFunc = True, a_isRef = False\<rparr>,
      \<lparr>a_name = ''S'', a_obj = Some [Field [''B''] (Ident ''bool'') None], a_packName = ''p'',
        a_typ = None, a_implFunc = False, a_isRef = False\<rparr>]"

definition split_registered :: env where
  "split_registered =
     env_split\<lparr>e_raw := raw_split, e_order := [(''types.go'', [''T'', ''S'']), (''methods.go'', [])],
               e_imports := []\<rparr>"

definition node_S :: Value where
  "node_S =
     Value (hdr0\<lparr>f_name := ''S'', f_obj := ''S'', f_t := TypeContainer\<rparr>)
       [Value (hdr0\<lparr>f_t := TypeBool, f_s := 1, f_name := ''B''\<rparr>) [] None] None"

definition node_T :: Value where
  "node_T = Value (hdr0\<lparr>f_name := ''T'', f_obj := ''T'', f_t := TypeReference\<rparr>) [] None"

text \<open>A source file and an included file that declare the same type name.\<close>

definition file_T :: "string \<Rightarrow> File" where
  "file_T pk = \<lparr>PkgName = pk, Decls = [GenDecl [TypeSpec ''T'' (StructType [])]], Imports = []\<rparr>"

definition env_dup :: "string \<Rightarrow> string \<Rightarrow> env" where
  "env_dup pk1 pk2 = env0\<lparr>e_files := [(''a.go'', file_T pk1)], e_include := [(''b.go'', file_T pk2)]\<rparr>"






text \<open>
  A registry entry on the store: a container with a \<^verbatim>\<open>uint64\<close> field and a list of
  \<^verbatim>\<open>uint16\<close>; the value it reads as; and the store after one copy.
\<close>

definition store_example :: heap where
  "store_example =
     [\<lparr>n_hdr = hdr0\<lparr>f_name := ''A'', f_obj := ''A'', f_t := TypeContainer\<rparr>,
        n_o = [Some 1, Some 2], n_e = None\<rparr>,
      \<lparr>n_hdr = hdr0\<lparr>f_name := ''X'', f_t := TypeUint, f_s := 8\<rparr>, n_o = [], n_e = None\<rparr>,
      \<lparr>n_hdr = hdr0\<lparr>f_name := ''L'', f_t := TypeList, f_m := 4, f_s := 4\<rparr>, n_o = [], n_e = Some 3\<rparr>,
      \<lparr>n_hdr = hdr0\<lparr>f_t := TypeUint, f_s := 2\<rparr>, n_o = [], n_e = None\<rparr>]"

definition value_example :: Value where
  "value_example =
     Value (hdr0\<lparr>f_name := ''A'', f_obj := ''A'', f_t := TypeContainer\<rparr>)
       [Value (hdr0\<lparr>f_name := ''X'', f_t := TypeUint, f_s := 8\<rparr>) [] None,
        Value (hdr0\<lparr>f_name := ''L'', f_t := TypeList, f_m := 4, f_s := 4\<rparr>) []
          (Some (Value (hdr0\<lparr>f_t := TypeUint, f_s := 2\<rparr>) [] None))] None"

definition store_copied :: heap where
  "store_copied =
     store_example @
     [\<lparr>n_hdr = hdr0\<lparr>f_name := ''A'', f_obj := ''A'', f_t := TypeContainer\<rparr>,
        n_o = [Some 5, Some 6], n_e = None\<rparr>,
      \<lparr>n_hdr = hdr0\<lparr>f_name := ''X'', f_t := TypeUint, f_s := 8\<rparr>, n_o = [], n_e = None\<rparr>,
      \<lparr>n_hdr = hdr0\<lparr>f_name := ''L'', f_t := TypeList, f_m := 4, f_s := 4\<rparr>, n_o = [], n_e = Some 7\<rparr>,
      \<lparr>n_hdr = hdr0\<lparr>f_t := TypeUint, f_s := 2\<rparr>, n_o = [], n_e = None\<rparr>]"

text \<open>
  The state with that store and with the registry that has the one name \<^verbatim>\<open>A\<close>, at address 0;
  and the state after the first build of the type \<^verbatim>\<open>R\<close> of \<open>ref_env\<close> from the empty state, with
  the tag \<^verbatim>\<open>ssz-size:"32"\<close>: the entry at address 0 and the returned copy at address 1.
\<close>

definition store_state :: store where
  "store_state = \<lparr>s_heap = store_example, s_objs = [''A'' \<mapsto> 0]\<rparr>"

definition store_empty :: store where
  "store_empty = \<lparr>s_heap = [], s_objs = Map.empty\<rparr>"

definition store_built :: store where
  "store_built =
     \<lparr>s_heap = [new_node (hdr0\<lparr>f_t := TypeReference, f_s := 32, f_name := ''R'', f_obj := ''R''\<rparr>),
                new_node (hdr0\<lparr>f_t := TypeReference, f_s := 32, f_name := ''R'', f_obj := ''R''\<rparr>)],
      s_objs = [''R'' \<mapsto> 0]\<rparr>"

subsection \<open>Facts about the classifier\<close>

lemma isFixed_fields_True:
  "isFixed_fields fs = Inr True \<longleftrightarrow> (\<forall>f \<in> set fs. isFixed f = Inr True)"
  by (induction fs) (auto split: sum.splits if_splits)

lemma isFixed_fields_total:
  "\<forall>f \<in> set fs. \<exists>b. isFixed f = Inr b \<Longrightarrow> \<exists>b. isFixed_fields fs = Inr b"
  by (induction fs) (auto split: sum.splits)

lemma isFixed_defined: "defined v \<Longrightarrow> \<exists>b. isFixed v = Inr b"
proof (induction v)
  case (Value h fs el)
  have fields: "\<exists>b. isFixed_fields fs = Inr b"
    using Value by (intro isFixed_fields_total) auto
  show ?case
  proof (cases el)
    case None
    with Value.prems fields show ?thesis
      by (cases "f_t h") auto
  next
    case (Some x)
    with Value have "\<exists>b. isFixed x = Inr b" by auto
    with Some fields show ?thesis
      using Value.prems by (cases "f_t h") auto
  qed
qed

subsection \<open>Facts about the builder\<close>

declare encodeItem.simps [simp del] parseASTFieldType.simps [simp del]

lemma copy_id: "copy v = v"
  by (induction v) (auto simp: map_idI split: option.splits)

lemma encodeItem_cached:
  "e_objs e nm = Some v \<Longrightarrow> encodeItem X n e nm tags = Inr (v, e)"
  by (simp add: encodeItem.simps copy_id)

lemma parseASTFieldType_omit:
  "getTags tags ''ssz'' = Some ''-'' \<Longrightarrow> parseASTFieldType X n e tags expr = Inr (None, e)"
  by (simp add: parseASTFieldType.simps)

lemma parseASTFieldType_Some:
  assumes "getTags tags ''ssz'' \<noteq> Some ''-''"
    and "parseASTFieldType X n e tags expr = Inr (r, e1)"
  shows "\<exists>v. r = Some v"
  using assms
  by (subst (asm) parseASTFieldType.simps)
     (auto split: Expr.splits sum.splits if_splits option.splits prod.splits error.splits)


lemma with_hdr_sel [simp]:
  "hdr (with_hdr g v) = g (hdr v)" "v_o (with_hdr g v) = v_o v" "v_e (with_hdr g v) = v_e v"
  by (cases v; simp)+

lemma with_o_sel [simp]:
  "hdr (with_o xs v) = hdr v" "v_o (with_o xs v) = xs" "v_e (with_o xs v) = v_e v"
  by (cases v; simp)+

lemma parseFields_names:
  "parseFields X n e v flds = Inr (v', e') \<Longrightarrow>
     map v_name (v_o v') = map v_name (v_o v) @ map (\<lambda>f. hd (Names f)) (filter kept_field flds) \<and>
     hdr v' = hdr v \<and> v_e v' = v_e v"
proof (induction flds arbitrary: e v)
  case Nil
  then show ?case by simp
next
  case (Cons f rest)
  show ?case
  proof (cases "kept_field f")
    case False
    then consider
        (names) "length (Names f) \<noteq> 1"
      | (panic) "length (Names f) = 1" "isExportedField (hd (Names f)) = Inl Panic"
      | (unexported) "length (Names f) = 1" "isExportedField (hd (Names f)) = Inr False"
      | (xxx) "length (Names f) = 1" "isExportedField (hd (Names f)) = Inr True"
          "HasPrefix (hd (Names f)) ''XXX_''"
      | (omit) "length (Names f) = 1" "isExportedField (hd (Names f)) = Inr True"
          "\<not> HasPrefix (hd (Names f)) ''XXX_''"
          "getTags (case Tag f of None \<Rightarrow> [] | Some tg \<Rightarrow> tg) ''ssz'' = Some ''-''"
      by (auto simp: kept_field_def isExportedField_def split: list.splits)
    then show ?thesis
    proof cases
      case names
      with Cons False show ?thesis by simp
    next
      case panic
      with Cons.prems show ?thesis by simp
    next
      case unexported
      with Cons False show ?thesis by simp
    next
      case xxx
      with Cons False show ?thesis by simp
    next
      case omit
      with Cons False show ?thesis by (simp add: parseASTFieldType_omit)
    qed
  next
    case True
    then have k: "length (Names f) = 1" "isExportedField (hd (Names f)) = Inr True"
      "\<not> HasPrefix (hd (Names f)) ''XXX_''"
      "getTags (case Tag f of None \<Rightarrow> [] | Some tg \<Rightarrow> tg) ''ssz'' \<noteq> Some ''-''"
      by (simp_all add: kept_field_def)
    from Cons.prems k obtain r e1 where
      p: "parseASTFieldType X n e (case Tag f of None \<Rightarrow> [] | Some tg \<Rightarrow> tg) (FType f) = Inr (r, e1)"
      by (auto split: sum.splits)
    with k obtain elem where r: "r = Some elem"
      using parseASTFieldType_Some by blast
    from Cons.prems k p r have
      "parseFields X n e1
         (with_o (v_o v @ [with_hdr (\<lambda>h. h\<lparr>f_name := hd (Names f)\<rparr>) elem]) v) rest = Inr (v', e')"
      by simp
    from Cons.IH [OF this] True show ?thesis by simp
  qed
qed



lemma apply_dim_sel [simp]:
  "f_fixed (apply_dim d h) = f_fixed h" "f_name (apply_dim d h) = f_name h"
  "f_c (apply_dim d h) = f_c h"
  "f_t (apply_dim d h) = (if IsList d then TypeList else if IsVector d then TypeVector else f_t h)"
  "f_s (apply_dim d h) =
     (if IsList d then word_of_int (ListLen d)
      else if IsVector d then word_of_int (VectorLen d) else f_s h)"
  by (simp_all add: apply_dim_def Let_def)

lemma byte_dim_sel [simp]:
  "f_t (byte_dim d h) = (if IsBitlist d then TypeBitList else TypeBytes)"
  "f_fixed (byte_dim d h) = (IsVector d \<or> f_fixed h)"
  "f_s (byte_dim d h) = f_s h" "f_c (byte_dim d h) = f_c h"
  by (auto simp: byte_dim_def Let_def)

lemma check_size_None [simp]: "check_size None h = Inr h"
  by (simp add: check_size_def)

lemma check_size_Some:
  "check_size (Some a) h =
     (if f_t h \<noteq> TypeVector then Inl (Err ''unexpected type for fixed size array'')
      else if f_s h \<noteq> a then Inl (Err ''Unexpected mismatch between ssz-size and array fixed size'')
      else Inr (h\<lparr>f_c := True\<rparr>))"
  by (simp add: check_size_def Let_def)

lemma check_size_Inr:
  "check_size astSize h = Inr h' \<Longrightarrow>
     f_t h' = f_t h \<and> f_s h' = f_s h \<and> f_fixed h' = f_fixed h \<and>
     (\<forall>a. astSize = Some a \<longrightarrow> f_t h = TypeVector \<and> f_s h = a \<and> f_c h')"
  by (cases astSize) (auto simp: check_size_Some split: if_splits)

lemma array_size_lit [simp]:
  "ParseUint X lit = Some a \<Longrightarrow> array_size X (Some (BasicLit lit)) = Inr (Some a)"
  by (simp add: array_size_def)

lemma array_size_None [simp]: "array_size X None = Inr None"
  by (simp add: array_size_def)



lemma parseDims_literal_error:
  assumes "ParseUint X lit = Some a"
    and "\<not> IsVector d \<or> IsList d \<or> word_of_int (VectorLen d) \<noteq> a"
  shows "\<exists>msg. parseDims X n e tags (d # ds) (Some (BasicLit lit)) elt Value0 = Inl (Err msg)"
  using assms by (auto simp: check_size_Some Value0_def hdr0_def)

lemma parseDims_literal_flat:
  assumes "ParseUint X lit = Some a"
    and "\<And>l2 e2. elt \<noteq> ArrayType l2 e2"
    and "parseDims X n e tags ds (Some (BasicLit lit)) elt col = Inr (v, e')"
    and "ds \<noteq> []"
  shows "v_s v = a \<and> v_c v \<and>
         (if elt = Ident ''byte'' then v_t v = TypeBytes \<or> v_t v = TypeBitList
          else v_t v = TypeVector)"
  using assms(3,4)
proof (induction ds arbitrary: col e)
  case Nil
  then show ?case by simp
next
  case (Cons d ds)
  from Cons.prems(1) assms(1) obtain h where
    c: "check_size (Some a) (apply_dim d (hdr col)) = Inr h"
    by (auto split: sum.splits)
  from check_size_Inr [OF c] have h: "f_t h = TypeVector" "f_s h = a" "f_c h"
    by auto
  show ?case
  proof (cases "elt = Ident ''byte''")
    case True
    with Cons.prems(1) assms(1) c
    have r: "parseDims X n e tags ds (Some (BasicLit lit)) elt
               (Value (byte_dim d h) (v_o col) (v_e col)) = Inr (v, e')"
      by simp
    show ?thesis
    proof (cases "ds = []")
      case True
      with r h \<open>elt = Ident ''byte''\<close> show ?thesis by auto
    next
      case False
      from Cons.IH [OF r False] show ?thesis .
    qed
  next
    case False
    with Cons.prems(1) assms(1,2) c obtain element e1 where
      r: "parseDims X n e1 tags ds (Some (BasicLit lit)) elt (Value h (v_o col) element) = Inr (v, e')"
      by (cases elt) (auto split: sum.splits)
    show ?thesis
    proof (cases "ds = []")
      case True
      with r h False show ?thesis by auto
    next
      case False
      from Cons.IH [OF r False] show ?thesis .
    qed
  qed
qed

lemma parseDims_literal_nested:
  assumes "ParseUint X lit = Some a"
    and "parseDims X n e tags (d # ds) (Some (BasicLit lit)) (ArrayType l2 e2) col = Inr (v, e')"
  shows "v_s v = a \<and> v_c v \<and> v_t v = TypeVector"
proof -
  from assms obtain h where
    c: "check_size (Some a) (apply_dim d (hdr col)) = Inr h" and "hdr v = h"
    by (auto split: sum.splits)
  with check_size_Inr [OF c] show ?thesis by auto
qed


subsection \<open>Facts about the printer\<close>

lemma print_loop_printed:
  assumes "\<forall>nm \<in> set order. \<not> e_excludeTypeNames e nm \<longrightarrow>
             (\<forall>obj. e_objs e nm = Some obj \<longrightarrow>
                (\<exists>refs. detectImports obj = Inr refs) \<and> (\<exists>b. isFixed obj = Inr b))"
  shows "\<exists>imps1. print_loop e order objs imps = Inr (objs @ filter (printed e) order, imps1)"
  using assms
proof (induction order arbitrary: objs imps)
  case Nil
  then show ?case by simp
next
  case (Cons nm order)
  then have IH: "\<And>objs imps.
      \<exists>imps1. print_loop e order objs imps = Inr (objs @ filter (printed e) order, imps1)"
    by simp
  show ?case
  proof (cases "e_excludeTypeNames e nm")
    case True
    then have "\<not> printed e nm" by (simp add: printed_def)
    with True IH [of objs imps] show ?thesis by simp
  next
    case False
    show ?thesis
    proof (cases "e_objs e nm")
      case None
      then have "\<not> printed e nm" by (simp add: printed_def)
      with None False IH [of objs imps] show ?thesis by simp
    next
      case (Some obj)
      with False Cons.prems obtain refs b where
        d: "detectImports obj = Inr refs" and f: "isFixed obj = Inr b"
        by auto
      show ?thesis
      proof (cases "b \<and> isBasicType obj")
        case True
        with False Some f have "\<not> printed e nm" by (simp add: printed_def)
        with True False Some d f IH [of objs "appendWithoutRepeated imps refs"] show ?thesis
          by simp
      next
        case nb: False
        with False Some f have "printed e nm" by (auto simp: printed_def)
        with nb False Some d f IH [of "objs @ [nm]" "appendWithoutRepeated imps refs"]
        show ?thesis
          by auto
      qed
    qed
  qed
qed

subsection \<open>Facts about the registration\<close>

lemma bump_keys: "set (map fst (bump nm refs)) = insert nm (set (map fst refs))"
  by (induction nm refs rule: bump.induct) auto

lemma bump_distinct: "distinct (map fst refs) \<Longrightarrow> distinct (map fst (bump nm refs))"
proof (induction nm refs rule: bump.induct)
  case (1 nm)
  then show ?case by simp
next
  case (2 nm k cnt rest)
  with bump_keys [of nm rest] show ?case by auto
qed

lemma bump_counter: "counter (bump nm refs) k = (if k = nm then counter refs k + 1 else counter refs k)"
  by (induction nm refs rule: bump.induct) (auto simp: counter_def)

lemma bump_positive: "\<forall>kc \<in> set refs. 0 < snd kc \<Longrightarrow> \<forall>kc \<in> set (bump nm refs). 0 < snd kc"
  by (induction nm refs rule: bump.induct) auto

lemma decodeSpecs_objs:
  "\<forall>r \<in> set objs. \<not> a_implFunc r \<Longrightarrow> \<forall>r \<in> set (decodeSpecs pk specs objs). \<not> a_implFunc r"
  by (induction pk specs objs rule: decodeSpecs.induct) (auto simp: Let_def)

lemma decodeDecls_method:
  "decodeDecls pk (FuncDecl (Some (StarExpr (Ident objName) # rcv)) nm params results # rest) objs refs =
     (case isFuncDecl nm params results of
        Inl err \<Rightarrow> Inl err
      | Inr ok \<Rightarrow> decodeDecls pk rest objs (if ok then bump objName refs else refs))"
  by simp

lemma decodeDecls_other:
  assumes "\<And>objName rcv. recv \<noteq> Some (StarExpr (Ident objName) # rcv)"
    and "decodeDecls pk (FuncDecl recv nm params results # rest) objs refs = Inr res"
  shows "decodeDecls pk rest objs refs = Inr res"
  using assms by (auto split: option.splits list.splits Expr.splits)

lemma decodeDecls_facts:
  assumes "decodeDecls pk decls objs refs = Inr (objs1, refs1)"
    and "distinct (map fst refs)" and "\<forall>kc \<in> set refs. 0 < snd kc"
    and "\<forall>r \<in> set objs. \<not> a_implFunc r"
  shows "distinct (map fst refs1) \<and> (\<forall>kc \<in> set refs1. 0 < snd kc) \<and>
         (\<forall>nm. counter refs1 nm = counter refs nm + length (filter (ssz_method nm) decls)) \<and>
         (\<forall>r \<in> set objs1. \<not> a_implFunc r)"
  using assms
proof (induction decls arbitrary: objs refs)
  case Nil
  then show ?case by simp
next
  case (Cons dec rest)
  show ?case
  proof (cases dec)
    case (GenDecl specs)
    with Cons.prems(1) have "decodeDecls pk rest (decodeSpecs pk specs objs) refs = Inr (objs1, refs1)"
      by simp
    from Cons.IH [OF this Cons.prems(2,3)] decodeSpecs_objs [OF Cons.prems(4)] GenDecl
    show ?thesis by (simp add: ssz_method_def)
  next
    case OtherDecl
    with Cons.prems(1) have "decodeDecls pk rest objs refs = Inr (objs1, refs1)" by simp
    from Cons.IH [OF this Cons.prems(2,3,4)] OtherDecl
    show ?thesis by (simp add: ssz_method_def)
  next
    case (FuncDecl recv nm params results)
    show ?thesis
    proof (cases "\<exists>objName rcv. recv = Some (StarExpr (Ident objName) # rcv)")
      case True
      then obtain objName rcv where recv: "recv = Some (StarExpr (Ident objName) # rcv)" by blast
      with Cons.prems(1) FuncDecl obtain ok where ok: "isFuncDecl nm params results = Inr ok"
        by (auto split: sum.splits)
      let ?refs = "if ok then bump objName refs else refs"
      from Cons.prems(1) FuncDecl recv ok
      have d: "decodeDecls pk rest objs ?refs = Inr (objs1, refs1)"
        by simp
      have "distinct (map fst ?refs)" "\<forall>kc \<in> set ?refs. 0 < snd kc"
        using Cons.prems(2,3) bump_distinct bump_positive by auto
      from Cons.IH [OF d this Cons.prems(4)]
      show ?thesis
        using FuncDecl recv ok by (auto simp: ssz_method_def bump_counter)
    next
      case False
      then have no: "\<And>objName rcv. recv \<noteq> Some (StarExpr (Ident objName) # rcv)" by blast
      from decodeDecls_other [OF no] Cons.prems(1) FuncDecl
      have d: "decodeDecls pk rest objs refs = Inr (objs1, refs1)" by blast
      have n: "\<And>k. \<not> ssz_method k dec"
        using no FuncDecl by (auto simp: ssz_method_def split: option.splits list.splits Expr.splits)
      from Cons.IH [OF d Cons.prems(2,3,4)] n show ?thesis by simp
    qed
  qed
qed

lemma counter_mem:
  assumes "distinct (map fst refs)" and "\<forall>kc \<in> set refs. 0 < snd kc" and "0 < c"
  shows "nm \<in> set (map fst (filter (\<lambda>kc. snd kc = c) refs)) \<longleftrightarrow> counter refs nm = c"
proof -
  have "nm \<in> set (map fst (filter (\<lambda>kc. snd kc = c) refs)) \<longleftrightarrow> (nm, c) \<in> set refs"
    by force
  also have "\<dots> \<longleftrightarrow> map_of refs nm = Some c"
    using assms(1) by simp
  also have "\<dots> \<longleftrightarrow> counter refs nm = c"
    using assms(3) by (auto simp: counter_def split: option.splits)
  finally show ?thesis .
qed

lemma decodeASTStruct_facts:
  assumes "decodeASTStruct file = Inr res"
  shows "r_packName res = PkgName file \<and>
         (\<forall>nm. nm \<in> set (r_funcs res) \<longleftrightarrow> count_methods file nm = 4) \<and>
         (\<forall>r \<in> set (r_objs res). \<not> a_implFunc r)"
proof -
  from assms obtain objs refs where
    d: "decodeDecls (PkgName file) (Decls file) [] [] = Inr (objs, refs)" and
    res: "res = \<lparr>r_objs = objs, r_funcs = map fst (filter (\<lambda>kc. snd kc = 4) refs),
                 r_packName = PkgName file\<rparr>"
    by (auto simp: decodeASTStruct_def split: sum.splits)
  from decodeDecls_facts [OF d] have
    f: "distinct (map fst refs)" "\<forall>kc \<in> set refs. 0 < snd kc"
       "\<And>nm. counter refs nm = count_methods file nm" "\<forall>r \<in> set objs. \<not> a_implFunc r"
    by (simp_all add: counter_def count_methods_def)
  from counter_mem [OF f(1,2), of 4] f(3,4) res show ?thesis by simp
qed

lemma addStructs_result:
  "addStructs objs isRef raw = Inr raw1 \<Longrightarrow> raw1 = raw @ map (\<lambda>i. i\<lparr>a_isRef := isRef\<rparr>) objs"
proof (induction objs arbitrary: raw)
  case Nil
  then show ?case by simp
next
  case (Cons i objs)
  then have "addStructs objs isRef (raw @ [i\<lparr>a_isRef := isRef\<rparr>]) = Inr raw1"
    by (simp split: if_splits)
  from Cons.IH [OF this] show ?case by simp
qed

lemma addStructs_implFunc:
  assumes "addStructs objs isRef raw = Inr raw1"
    and "\<forall>r \<in> set raw. \<not> a_implFunc r" and "\<forall>r \<in> set objs. \<not> a_implFunc r"
  shows "\<forall>r \<in> set raw1. \<not> a_implFunc r"
  using addStructs_result [OF assms(1)] assms(2,3) by auto

lemma structsOfFiles_facts:
  assumes "structsOfFiles fs raw results order = Inr (raw1, results1, order1)"
    and "\<forall>r \<in> set raw. \<not> a_implFunc r"
  shows "(\<forall>r \<in> set raw1. \<not> a_implFunc r) \<and>
         (\<exists>rs. results1 = results @ rs \<and>
            list_all2 (\<lambda>fF res. decodeASTStruct (snd fF) = Inr res) fs rs)"
  using assms
proof (induction fs arbitrary: raw results order)
  case Nil
  then show ?case by simp
next
  case (Cons fF fs)
  obtain fname fl where fF: "fF = (fname, fl)" by (cases fF)
  with Cons.prems(1) obtain res raw0 where
    d: "decodeASTStruct fl = Inr res" and
    a: "addStructs (r_objs res) False raw = Inr raw0" and
    r: "structsOfFiles fs raw0 (results @ [res]) (order @ [(fname, map a_name (r_objs res))]) =
          Inr (raw1, results1, order1)"
    by (auto split: sum.splits)
  from decodeASTStruct_facts [OF d] addStructs_implFunc [OF a Cons.prems(2)]
  have "\<forall>r \<in> set raw0. \<not> a_implFunc r" by simp
  from Cons.IH [OF r this] fF d show ?case by auto
qed

lemma structsOfInclude_facts:
  assumes "structsOfInclude fs raw results = Inr (raw1, results1)"
    and "\<forall>r \<in> set raw. \<not> a_implFunc r"
  shows "(\<forall>r \<in> set raw1. \<not> a_implFunc r) \<and>
         (\<exists>rs. results1 = results @ rs \<and>
            list_all2 (\<lambda>fF res. decodeASTStruct (snd fF) = Inr res) fs rs)"
  using assms
proof (induction fs arbitrary: raw results)
  case Nil
  then show ?case by simp
next
  case (Cons fF fs)
  obtain fname fl where fF: "fF = (fname, fl)" by (cases fF)
  with Cons.prems(1) obtain res raw0 where
    d: "decodeASTStruct fl = Inr res" and
    a: "addStructs (r_objs res) True raw = Inr raw0" and
    r: "structsOfInclude fs raw0 (results @ [res]) = Inr (raw1, results1)"
    by (auto split: sum.splits)
  from decodeASTStruct_facts [OF d] addStructs_implFunc [OF a Cons.prems(2)]
  have "\<forall>r \<in> set raw0. \<not> a_implFunc r" by simp
  from Cons.IH [OF r this] fF d show ?case by auto
qed

lemma getRawItemByName_mem:
  "getRawItemByName raw nm = Some r \<Longrightarrow> r \<in> set raw \<and> a_name r = nm"
  by (induction raw) (auto split: if_splits)

lemma getRaw_setImplFunc:
  "getRawItemByName (setImplFunc raw pk nm) nm0 =
     map_option (\<lambda>r. if nm0 = nm \<and> a_packName r = pk then r\<lparr>a_implFunc := True\<rparr> else r)
       (getRawItemByName raw nm0)"
  by (induction raw) (auto simp: option.map_ident)

lemma getRaw_checkImplFunc:
  "checkImplFunc funcs pk raw = Inr raw1 \<Longrightarrow>
     getRawItemByName raw1 nm0 =
       map_option (\<lambda>r. if nm0 \<in> set funcs \<and> a_packName r = pk then r\<lparr>a_implFunc := True\<rparr> else r)
         (getRawItemByName raw nm0)"
proof (induction funcs arbitrary: raw)
  case Nil
  then show ?case by (simp add: option.map_ident)
next
  case (Cons nm funcs)
  then have c: "checkImplFunc funcs pk (setImplFunc raw pk nm) = Inr raw1"
    by (auto split: if_splits)
  show ?case
    unfolding Cons.IH [OF c] getRaw_setImplFunc
    by (cases "getRawItemByName raw nm0") auto
qed

lemma getRaw_implFuncsOf:
  "implFuncsOf results raw = Inr raw1 \<Longrightarrow>
     getRawItemByName raw1 nm0 =
       map_option (\<lambda>r. if \<exists>res \<in> set results. nm0 \<in> set (r_funcs res) \<and> r_packName res = a_packName r
                       then r\<lparr>a_implFunc := True\<rparr> else r)
         (getRawItemByName raw nm0)"
proof (induction results arbitrary: raw)
  case Nil
  then show ?case by (simp add: option.map_ident)
next
  case (Cons res results)
  then obtain raw0 where
    c: "checkImplFunc (r_funcs res) (r_packName res) raw = Inr raw0" and
    i: "implFuncsOf results raw0 = Inr raw1"
    by (auto split: sum.splits)
  show ?case
    unfolding Cons.IH [OF i] getRaw_checkImplFunc [OF c]
    by (cases "getRawItemByName raw nm0") auto
qed

lemma register_implFunc:
  assumes "register e = Inr e1" and "getRawItemByName (e_raw e1) nm = Some r"
  shows "a_implFunc r \<longleftrightarrow>
           (\<exists>fF \<in> set (e_files e @ e_include e).
              PkgName (snd fF) = a_packName r \<and> count_methods (snd fF) nm = 4)"
proof -
  from assms(1) obtain imps raw1 results1 order raw2 results2 raw3 where
    s1: "structsOfFiles (e_files e) [] [] [] = Inr (raw1, results1, order)" and
    s2: "structsOfInclude (e_include e) raw1 results1 = Inr (raw2, results2)" and
    s3: "implFuncsOf results2 raw2 = Inr raw3" and
    e1: "e1 = e\<lparr>e_raw := raw3, e_order := order, e_imports := imps\<rparr>"
    by (auto simp: register_def split: sum.splits)
  from structsOfFiles_facts [OF s1] have
    f1: "\<forall>r \<in> set raw1. \<not> a_implFunc r"
        "list_all2 (\<lambda>fF res. decodeASTStruct (snd fF) = Inr res) (e_files e) results1"
    by auto
  from structsOfInclude_facts [OF s2 f1(1)] obtain rs where
    f2: "\<forall>r \<in> set raw2. \<not> a_implFunc r" "results2 = results1 @ rs"
        "list_all2 (\<lambda>fF res. decodeASTStruct (snd fF) = Inr res) (e_include e) rs"
    by auto
  define fs where "fs = e_files e @ e_include e"
  from f1(2) f2(2,3) have
    all: "list_all2 (\<lambda>fF res. decodeASTStruct (snd fF) = Inr res) fs results2"
    by (simp add: list_all2_appendI fs_def)
  from assms(2) e1 getRaw_implFuncsOf [OF s3, of nm] obtain r0 where
    r0: "getRawItemByName raw2 nm = Some r0" and
    r: "r = (if \<exists>res \<in> set results2. nm \<in> set (r_funcs res) \<and> r_packName res = a_packName r0
             then r0\<lparr>a_implFunc := True\<rparr> else r0)"
    by auto
  from getRawItemByName_mem [OF r0] f2(1) have n0: "\<not> a_implFunc r0" by simp
  from r have pk: "a_packName r = a_packName r0" by (simp split: if_splits)
  from r n0 have "a_implFunc r \<longleftrightarrow>
      (\<exists>res \<in> set results2. nm \<in> set (r_funcs res) \<and> r_packName res = a_packName r0)"
    by (simp split: if_splits)
  also have "\<dots> \<longleftrightarrow> (\<exists>fF \<in> set fs.
      PkgName (snd fF) = a_packName r0 \<and> count_methods (snd fF) nm = 4)"
  proof
    assume "\<exists>res \<in> set results2. nm \<in> set (r_funcs res) \<and> r_packName res = a_packName r0"
    then obtain res where res: "res \<in> set results2" "nm \<in> set (r_funcs res)"
      "r_packName res = a_packName r0" by blast
    from res(1) obtain i where i: "i < length results2" "results2 ! i = res"
      by (auto simp: in_set_conv_nth)
    with all have "fs ! i \<in> set fs"
      "decodeASTStruct (snd (fs ! i)) = Inr res"
      by (auto simp: list_all2_conv_all_nth)
    then obtain fF where "fF \<in> set fs"
      "decodeASTStruct (snd fF) = Inr res"
      by blast
    with decodeASTStruct_facts [OF this(2)] res(2,3)
    show "\<exists>fF \<in> set fs.
      PkgName (snd fF) = a_packName r0 \<and> count_methods (snd fF) nm = 4"
      by auto
  next
    assume "\<exists>fF \<in> set fs.
      PkgName (snd fF) = a_packName r0 \<and> count_methods (snd fF) nm = 4"
    then obtain fF where fF: "fF \<in> set fs"
      "PkgName (snd fF) = a_packName r0" "count_methods (snd fF) nm = 4" by blast
    from fF(1) obtain i where i: "i < length fs"
      "fs ! i = fF"
      by (auto simp: in_set_conv_nth)
    with all have "results2 ! i \<in> set results2" "decodeASTStruct (snd fF) = Inr (results2 ! i)"
      by (auto simp: list_all2_conv_all_nth)
    then obtain res where "res \<in> set results2" "decodeASTStruct (snd fF) = Inr res"
      by blast
    with decodeASTStruct_facts [OF this(2)] fF(2,3)
    show "\<exists>res \<in> set results2. nm \<in> set (r_funcs res) \<and> r_packName res = a_packName r0"
      by auto
  qed
  finally show ?thesis using pk by (simp add: fs_def)
qed

lemma encodeItem_first_build_ref:
  assumes "e_objs e nm = None" and "getRawItemByName (e_raw e) nm = Some r" and "a_implFunc r"
  shows "\<exists>v. encodeItem X (Suc k) e nm tags = Inr (v, e\<lparr>e_objs := (e_objs e)(nm \<mapsto> v)\<rparr>) \<and>
             v_t v = TypeReference \<and> v_o v = [] \<and> v_e v = None"
  using assms by (simp add: encodeItem.simps Let_def copy_id)

lemma encodeItem_first_build_struct:
  assumes "e_objs e nm = None" and "getRawItemByName (e_raw e) nm = Some r"
    and "\<not> a_implFunc r" and "a_obj r = Some flds"
    and "encodeItem X n e nm tags = Inr (v, e1)"
  shows "v_t v = TypeContainer"
proof -
  from assms obtain k v0 e0 where
    "parseFields X k e (Value (hdr0\<lparr>f_name := nm, f_t := TypeContainer\<rparr>) [] None) flds = Inr (v0, e0)"
    and v: "v = copy (with_hdr (\<lambda>h. h\<lparr>f_name := nm, f_obj := nm\<rparr>) v0)"
    by (auto simp: encodeItem.simps Let_def split: nat.splits sum.splits error.splits)
  from parseFields_names [OF this(1)] v show ?thesis
    by (simp add: copy_id)
qed

lemma isFuncDecl_name: "isFuncDecl fn params results = Inr True \<Longrightarrow> fn \<in> set ssz_names"
  by (auto simp: isFuncDecl_def ssz_names_def split: if_splits)

lemma ssz_method_name: "ssz_method nm dec \<Longrightarrow> FName dec \<in> set ssz_names"
  by (cases dec) (auto simp: ssz_method_def dest: isFuncDecl_name split: option.splits list.splits Expr.splits)

lemma count_methods_all_four:
  assumes "distinct (map FName (filter (ssz_method nm) (Decls fl)))"
  shows "count_methods fl nm = 4 \<longleftrightarrow>
           (\<forall>m \<in> set ssz_names. \<exists>dec \<in> set (Decls fl). ssz_method nm dec \<and> FName dec = m)"
proof -
  let ?L = "map FName (filter (ssz_method nm) (Decls fl))"
  have sub: "set ?L \<subseteq> set ssz_names" using ssz_method_name by auto
  have card4: "card (set ssz_names) = 4" by (simp add: ssz_names_def)
  have len: "count_methods fl nm = card (set ?L)"
    using distinct_card [OF assms] by (simp add: count_methods_def)
  have "count_methods fl nm = 4 \<longleftrightarrow> set ?L = set ssz_names"
  proof
    assume "count_methods fl nm = 4"
    with len card4 have "card (set ?L) = card (set ssz_names)" by simp
    with sub show "set ?L = set ssz_names" by (simp add: card_subset_eq)
  next
    assume "set ?L = set ssz_names"
    with len card4 show "count_methods fl nm = 4" by simp
  qed
  also have "\<dots> \<longleftrightarrow> set ssz_names \<subseteq> set ?L" using sub by auto
  also have "\<dots> \<longleftrightarrow> (\<forall>m \<in> set ssz_names. \<exists>dec \<in> set (Decls fl). ssz_method nm dec \<and> FName dec = m)"
    by (auto simp: image_iff)
  finally show ?thesis .
qed

subsection \<open>Facts about the store\<close>

declare copy_h.simps [simp del] copy_loop.simps [simp del]

lemma repr_agree:
  "repr h S p v \<Longrightarrow> agree S h g \<Longrightarrow> repr g S p v"
  "repr_list h S ps vs \<Longrightarrow> agree S h g \<Longrightarrow> repr_list g S ps vs"
  by (induction h S p v and h S ps vs rule: repr_repr_list.induct)
     (auto simp: agree_def split: option.splits)

lemma repr_mono_all:
  "repr h S p v \<longrightarrow> (\<forall>S2. S \<subseteq> S2 \<longrightarrow> repr h S2 p v)"
  "repr_list h S ps vs \<longrightarrow> (\<forall>S2. S \<subseteq> S2 \<longrightarrow> repr_list h S2 ps vs)"
proof (induction h S p v and h S ps vs rule: repr_repr_list.induct)
  case (1 h S p hv fs el)
  show ?case
  proof (intro impI allI)
    fix S2 assume r: "repr h S p (Value hv fs el)" and sub: "S \<subseteq> S2"
    from r obtain a where p: "p = Some a" by (cases p) auto
    from sub have sub2: "S - {a} \<subseteq> S2 - {a}" by auto
    from r p have fs: "repr_list h (S - {a}) (n_o (h ! a)) fs" by simp
    with 1(1) [OF p] sub2 have fs2: "repr_list h (S2 - {a}) (n_o (h ! a)) fs" by blast
    show "repr h S2 p (Value hv fs el)"
    proof (cases el)
      case None
      with r p sub fs2 show ?thesis by auto
    next
      case (Some x)
      with r p have "repr h (S - {a}) (n_e (h ! a)) x" by simp
      with 1(2) [OF p Some] sub2 have "repr h (S2 - {a}) (n_e (h ! a)) x" by blast
      with r p sub fs2 Some show ?thesis by auto
    qed
  qed
qed auto

lemma repr_mono:
  "repr h S p v \<Longrightarrow> S \<subseteq> S2 \<Longrightarrow> repr h S2 p v"
  "repr_list h S ps vs \<Longrightarrow> S \<subseteq> S2 \<Longrightarrow> repr_list h S2 ps vs"
  using repr_mono_all by blast+

lemma repr_list_length: "repr_list h S ps vs \<Longrightarrow> length ps = length vs"
  by (induction ps arbitrary: vs) (case_tac vs; simp)+

lemma repr_list_nth:
  "repr_list h S ps vs \<Longrightarrow> i < length vs \<Longrightarrow> repr h S (ps ! i) (vs ! i)"
proof (induction ps arbitrary: vs i)
  case Nil
  then show ?case by (cases vs) simp_all
next
  case (Cons p ps)
  then show ?case by (cases vs; cases i) simp_all
qed

lemma repr_list_snoc:
  "length ps = length vs \<Longrightarrow>
   repr_list h S (ps @ [p]) (vs @ [v]) \<longleftrightarrow> repr_list h S ps vs \<and> repr h S p v"
proof (induction ps arbitrary: vs)
  case Nil
  then show ?case by simp
next
  case (Cons q ps)
  then show ?case by (cases vs) auto
qed

lemma repr_Some: "repr h S p v \<Longrightarrow> \<exists>a. p = Some a \<and> a \<in> S \<and> a < length h"
  by (cases v; cases p) auto

lemma repr_list_mem:
  "repr_list h S ps vs \<Longrightarrow> p \<in> set ps \<Longrightarrow> \<exists>v. repr h S p v"
proof (induction ps arbitrary: vs)
  case Nil
  then show ?case by simp
next
  case (Cons q ps)
  then show ?case by (cases vs) auto
qed

lemma reach_repr:
  assumes "b \<in> reach h a" and "repr h S (Some a) v"
  shows "\<exists>w. repr h S (Some b) w"
  using assms
proof (induction rule: reach.induct)
  case start
  then show ?case by blast
next
  case (field b c)
  then obtain w where w: "repr h S (Some b) w" by blast
  then have "repr_list h (S - {b}) (n_o (h ! b)) (v_o w)" by (cases w) simp
  then have "repr_list h S (n_o (h ! b)) (v_o w)" by (rule repr_mono(2)) auto
  from repr_list_mem [OF this field.hyps(3)] show ?case .
next
  case (elem b c)
  then obtain w where w: "repr h S (Some b) w" by blast
  with elem.hyps(3) obtain x where "repr h (S - {b}) (Some c) x"
    by (cases w) (auto split: option.splits)
  then have "repr h S (Some c) x" by (rule repr_mono(1)) auto
  then show ?case by blast
qed

lemma reach_subset: "repr h S (Some a) v \<Longrightarrow> reach h a \<subseteq> S"
  using reach_repr repr_Some by blast

lemma extends_nth:
  assumes "take n g = h" and "a < length h"
  shows "g ! a = h ! a"
proof -
  from assms have "a < n" by auto
  then have "take n g ! a = g ! a" by (rule nth_take)
  with assms(1) show ?thesis by simp
qed

lemma extends_agree:
  assumes "take (length h) g = h" and "length h \<le> length g"
  shows "agree {..<length h} h g"
  unfolding agree_def
proof (intro ballI impI)
  fix a assume "a \<in> {..<length h}" "a < length h"
  with assms extends_nth [OF assms(1), of a] show "a < length g \<and> g ! a = h ! a" by simp
qed

lemma extends_trans:
  assumes "take (length g) g1 = g" and "take (length h) g = h" and "length h \<le> length g"
  shows "take (length h) g1 = h"
proof -
  have "take (length h) (take (length g) g1) = take (length h) g1"
    using assms(3) by (simp add: min_absorb1)
  with assms(1,2) show ?thesis by simp
qed

lemma copy_loop_correct:
  assumes IH: "\<And>f g b. f \<in> set fs \<Longrightarrow> repr g {..<length g} (Some b) f \<Longrightarrow>
      \<exists>g1. copy_h j g (Some b) = Inr (length g, g1) \<and> length g < length g1 \<and>
           take (length g) g1 = g \<and> repr g1 {length g..<length g1} (Some (length g)) f"
    and src: "repr_list h {..<length h} (n_o (h ! a)) fs" and a: "a < length h"
  shows "length h < length g \<Longrightarrow> take (length h) g = h \<Longrightarrow>
         length (n_o (g ! length h)) = length fs \<Longrightarrow>
         repr_list g {Suc (length h)..<length g} (take i (n_o (g ! length h))) (take i fs) \<Longrightarrow>
         i \<le> length fs \<Longrightarrow>
         \<exists>g2. copy_loop j g a (length h) i (length fs) = Inr g2 \<and> length g \<le> length g2 \<and>
              take (length h) g2 = h \<and> n_hdr (g2 ! length h) = n_hdr (g ! length h) \<and>
              n_e (g2 ! length h) = n_e (g ! length h) \<and>
              repr_list g2 {Suc (length h)..<length g2} (n_o (g2 ! length h)) fs"
proof (induction "length fs - i" arbitrary: i g)
  case 0
  then have i: "i = length fs" by simp
  with 0 show ?case by (simp add: copy_loop.simps)
next
  case (Suc d)
  let ?vv = "length h"
  from Suc.hyps(2) have i: "i < length fs" by simp
  have ga: "g ! a = h ! a" using Suc.prems(2) a by (rule extends_nth)
  have len: "length (n_o (h ! a)) = length fs" using src by (rule repr_list_length)
  have hg: "agree {..<length h} h g"
    using Suc.prems(1,2) by (simp add: extends_agree)
  have sub0: "{..<length h} \<subseteq> {..<length g}" using Suc.prems(1) by auto
  have r: "repr g {..<length g} (n_o (h ! a) ! i) (fs ! i)"
    by (rule repr_mono(1) [OF repr_agree(1) [OF repr_list_nth [OF src i] hg] sub0])
  then obtain b where b: "n_o (h ! a) ! i = Some b" using repr_Some by blast
  from i have "fs ! i \<in> set fs" by simp
  from IH [OF this r [unfolded b]] obtain g1 where
    g1: "copy_h j g (Some b) = Inr (length g, g1)" "length g < length g1"
        "take (length g) g1 = g" "repr g1 {length g..<length g1} (Some (length g)) (fs ! i)"
    by blast
  define g2 where "g2 = g1[?vv := (g1 ! ?vv)\<lparr>n_o := (n_o (g1 ! ?vv))[i := Some (length g)]\<rparr>]"
  have vv1: "g1 ! ?vv = g ! ?vv" using g1(3) Suc.prems(1) by (rule extends_nth)
  have lg2: "length g2 = length g1" by (simp add: g2_def)
  have vv2: "g2 ! ?vv = (g ! ?vv)\<lparr>n_o := (n_o (g ! ?vv))[i := Some (length g)]\<rparr>"
    using Suc.prems(1) g1(2) by (simp add: g2_def vv1)
  have p1: "length h < length g2" using Suc.prems(1) g1(2) lg2 by simp
  have p2: "take (length h) g2 = h"
    using extends_trans [OF g1(3) Suc.prems(2)] Suc.prems(1) by (simp add: g2_def)
  have p3: "length (n_o (g2 ! length h)) = length fs"
    using Suc.prems(3) by (simp add: vv2)
  have ag1: "agree {Suc ?vv..<length g} g g2"
    unfolding agree_def
  proof (intro ballI impI)
    fix c assume "c \<in> {Suc ?vv..<length g}" "c < length g"
    then show "c < length g2 \<and> g2 ! c = g ! c"
      using g1(2) lg2 extends_nth [OF g1(3), of c] by (simp add: g2_def)
  qed
  have ag2: "agree {length g..<length g1} g1 g2"
    unfolding agree_def
  proof (intro ballI impI)
    fix c assume "c \<in> {length g..<length g1}" "c < length g1"
    then show "c < length g2 \<and> g2 ! c = g1 ! c"
      using Suc.prems(1) lg2 by (simp add: g2_def)
  qed
  have sub1: "{Suc ?vv..<length g} \<subseteq> {Suc ?vv..<length g2}"
    using g1(2) lg2 by auto
  have sub2: "{length g..<length g1} \<subseteq> {Suc ?vv..<length g2}"
    using Suc.prems(1) lg2 by auto
  have old: "repr_list g2 {Suc ?vv..<length g2} (take i (n_o (g ! ?vv))) (take i fs)"
    by (rule repr_mono(2) [OF repr_agree(2) [OF Suc.prems(4) ag1] sub1])
  have new: "repr g2 {Suc ?vv..<length g2} (Some (length g)) (fs ! i)"
    by (rule repr_mono(1) [OF repr_agree(1) [OF g1(4) ag2] sub2])
  have tk: "take (Suc i) (n_o (g2 ! ?vv)) = take i (n_o (g ! ?vv)) @ [Some (length g)]"
    using i Suc.prems(3) by (simp add: vv2 take_Suc_conv_app_nth)
  have p4: "repr_list g2 {Suc ?vv..<length g2} (take (Suc i) (n_o (g2 ! ?vv))) (take (Suc i) fs)"
    using i Suc.prems(3) old new
    by (simp add: tk take_Suc_conv_app_nth [of i fs] repr_list_snoc)
  from Suc.hyps(2) have d: "d = length fs - Suc i" by simp
  from Suc.hyps(1) [OF d p1 p2 p3 p4] i obtain g3 where
    g3: "copy_loop j g2 a ?vv (Suc i) (length fs) = Inr g3" "length g2 \<le> length g3"
        "take ?vv g3 = h" "n_hdr (g3 ! ?vv) = n_hdr (g2 ! ?vv)" "n_e (g3 ! ?vv) = n_e (g2 ! ?vv)"
        "repr_list g3 {Suc ?vv..<length g3} (n_o (g3 ! ?vv)) fs"
    by auto
  have "copy_loop j g a ?vv i (length fs) = Inr g3"
    using i a Suc.prems(1) len ga b g1(1) g3(1)
    by (subst copy_loop.simps) (simp add: g2_def)
  with g3 g1(2) lg2 vv2 show ?case by simp
qed

lemma depth_list_mem: "f \<in> set fs \<Longrightarrow> depth f \<le> depth_list fs"
  by (induction fs) auto

lemma depth_field: "f \<in> set fs \<Longrightarrow> depth f < depth (Value hv fs el)"
  using depth_list_mem [of f fs] by simp

lemma depth_elem: "depth x < depth (Value hv fs (Some x))"
  by simp

lemma copy_h_correct:
  "repr h {..<length h} (Some a) v \<Longrightarrow> depth v \<le> k \<Longrightarrow>
   \<exists>h2. copy_h k h (Some a) = Inr (length h, h2) \<and> length h < length h2 \<and>
        take (length h) h2 = h \<and> repr h2 {length h..<length h2} (Some (length h)) v"
proof (induction v arbitrary: k h a)
  case (Value hv fs el)
  let ?vv = "length h"
  let ?n = "length (n_o (h ! a))"
  let ?h1 = "h @ [(h ! a)\<lparr>n_o := replicate ?n None\<rparr>]"
  from Value.prems(1) have a: "a < length h" and hv: "n_hdr (h ! a) = hv"
    and src0: "repr_list h ({..<length h} - {a}) (n_o (h ! a)) fs" by simp_all
  have src: "repr_list h {..<length h} (n_o (h ! a)) fs"
    by (rule repr_mono(2) [OF src0]) auto
  from Value.prems(2) obtain j where k: "k = Suc j" and j: "depth (Value hv fs el) \<le> Suc j"
    by (cases k) auto
  have len: "?n = length fs" using src by (rule repr_list_length)
  have IHf: "\<And>f g b. f \<in> set fs \<Longrightarrow> repr g {..<length g} (Some b) f \<Longrightarrow>
      \<exists>g1. copy_h j g (Some b) = Inr (length g, g1) \<and> length g < length g1 \<and>
           take (length g) g1 = g \<and> repr g1 {length g..<length g1} (Some (length g)) f"
  proof -
    fix f g b assume f: "f \<in> set fs" and r: "repr g {..<length g} (Some b) f"
    from depth_field [OF f, of hv el] j have "depth f \<le> j" by linarith
    from Value.IH(1) [OF f r this]
    show "\<exists>g1. copy_h j g (Some b) = Inr (length g, g1) \<and> length g < length g1 \<and>
           take (length g) g1 = g \<and> repr g1 {length g..<length g1} (Some (length g)) f" .
  qed
  have q1: "length h < length ?h1" by simp
  have q2: "take (length h) ?h1 = h" by simp
  have q3: "length (n_o (?h1 ! length h)) = length fs" by (simp add: len)
  have q4: "repr_list ?h1 {Suc (length h)..<length ?h1} (take 0 (n_o (?h1 ! length h))) (take 0 fs)"
    by simp
  from copy_loop_correct [OF IHf src a q1 q2 q3 q4] obtain h2 where
    h2: "copy_loop j ?h1 a ?vv 0 (length fs) = Inr h2" "length ?h1 \<le> length h2"
        "take ?vv h2 = h" "n_hdr (h2 ! ?vv) = n_hdr (?h1 ! ?vv)" "n_e (h2 ! ?vv) = n_e (?h1 ! ?vv)"
        "repr_list h2 {Suc ?vv..<length h2} (n_o (h2 ! ?vv)) fs"
    by auto
  have l2: "length h < length h2" using h2(2) by simp
  have a2: "h2 ! a = h ! a" using h2(3) a by (rule extends_nth)
  have hdr2: "n_hdr (h2 ! ?vv) = hv" using h2(4) hv by simp
  have e2: "n_e (h2 ! ?vv) = n_e (h ! a)" using h2(5) by simp
  have sub: "{Suc ?vv..<length h2} \<subseteq> {?vv..<length h2} - {?vv}" by auto
  show ?case
  proof (cases el)
    case None
    with Value.prems(1) have ne: "n_e (h ! a) = None" by simp
    have c: "copy_h k h (Some a) = Inr (?vv, h2)"
      using a k h2(1) len a2 ne by (subst copy_h.simps) simp
    have r: "repr h2 {?vv..<length h2} (Some ?vv) (Value hv fs el)"
      using l2 hdr2 e2 ne None repr_mono(2) [OF h2(6) sub] by simp
    from c l2 h2(3) r show ?thesis by blast
  next
    case (Some x)
    with Value.prems(1) have "repr h ({..<length h} - {a}) (n_e (h ! a)) x" by simp
    then have rx: "repr h {..<length h} (n_e (h ! a)) x" by (rule repr_mono(1)) auto
    then obtain b where b: "n_e (h ! a) = Some b" using repr_Some by blast
    have hg: "agree {..<length h} h h2" using h2(3) l2 by (simp add: extends_agree)
    have sub0: "{..<length h} \<subseteq> {..<length h2}" using l2 by auto
    have rx2: "repr h2 {..<length h2} (Some b) x"
      using repr_mono(1) [OF repr_agree(1) [OF rx hg] sub0] b by simp
    have sx: "depth x \<le> j"
      using depth_elem [of x hv fs] j unfolding Some by linarith
    have "x \<in> set_option el" using Some by simp
    from Value.IH(2) [OF this rx2 sx] obtain h3 where
      h3: "copy_h j h2 (Some b) = Inr (length h2, h3)" "length h2 < length h3"
          "take (length h2) h3 = h2" "repr h3 {length h2..<length h3} (Some (length h2)) x"
      by blast
    define h4 where "h4 = h3[?vv := (h3 ! ?vv)\<lparr>n_e := Some (length h2)\<rparr>]"
    have l4: "length h4 = length h3" by (simp add: h4_def)
    have vv3: "h3 ! ?vv = h2 ! ?vv" using h3(3) l2 by (rule extends_nth)
    have vv4: "h4 ! ?vv = (h2 ! ?vv)\<lparr>n_e := Some (length h2)\<rparr>"
      using l2 h3(2) by (simp add: h4_def vv3)
    have t4: "take ?vv h4 = h"
      using extends_trans [OF h3(3) h2(3)] l2 by (simp add: h4_def)
    have ag1: "agree {Suc ?vv..<length h2} h2 h4"
      unfolding agree_def
    proof (intro ballI impI)
      fix c assume "c \<in> {Suc ?vv..<length h2}" "c < length h2"
      then show "c < length h4 \<and> h4 ! c = h2 ! c"
        using h3(2) l4 extends_nth [OF h3(3), of c] by (simp add: h4_def)
    qed
    have ag2: "agree {length h2..<length h3} h3 h4"
      unfolding agree_def
    proof (intro ballI impI)
      fix c assume "c \<in> {length h2..<length h3}" "c < length h3"
      then show "c < length h4 \<and> h4 ! c = h3 ! c"
        using l2 l4 by (simp add: h4_def)
    qed
    have sub1: "{Suc ?vv..<length h2} \<subseteq> {?vv..<length h4} - {?vv}" using h3(2) l4 by auto
    have sub2: "{length h2..<length h3} \<subseteq> {?vv..<length h4} - {?vv}" using l2 l4 by auto
    have fields: "repr_list h4 ({?vv..<length h4} - {?vv}) (n_o (h2 ! ?vv)) fs"
      by (rule repr_mono(2) [OF repr_agree(2) [OF h2(6) ag1] sub1])
    have element: "repr h4 ({?vv..<length h4} - {?vv}) (Some (length h2)) x"
      by (rule repr_mono(1) [OF repr_agree(1) [OF h3(4) ag2] sub2])
    have c: "copy_h k h (Some a) = Inr (?vv, h4)"
      using a k h2(1) len a2 b h3(1) by (subst copy_h.simps) (simp add: h4_def)
    have r: "repr h4 {?vv..<length h4} (Some ?vv) (Value hv fs el)"
      using l2 h3(2) l4 hdr2 Some fields element by (simp add: vv4)
    have l: "length h < length h4" using l2 h3(2) l4 by simp
    from c l t4 r show ?thesis by blast
  qed
qed

lemma write_hdr_old:
  assumes "take (length h) h2 = h" and "length h \<le> length h2"
  shows "take (length h) (write_hdr h2 (length h) g) = h"
    and "repr h {..<length h} p w \<Longrightarrow> repr (write_hdr h2 (length h) g) {..<length h} p w"
proof -
  show t: "take (length h) (write_hdr h2 (length h) g) = h"
    using assms by (simp add: write_hdr_def)
  have "length h \<le> length (write_hdr h2 (length h) g)"
    using assms(2) by (simp add: write_hdr_def)
  with t have "agree {..<length h} h (write_hdr h2 (length h) g)"
    by (rule extends_agree)
  then show "repr h {..<length h} p w \<Longrightarrow> repr (write_hdr h2 (length h) g) {..<length h} p w"
    by (rule repr_agree(1) [rotated])
qed

lemma copy_loop_fuel:
  assumes H: "\<And>h p r. copy_h j h p = Inr r \<Longrightarrow> copy_h j2 h p = Inr r"
  shows "copy_loop j h a vv i n = Inr r \<Longrightarrow> copy_loop j2 h a vv i n = Inr r"
proof (induction "n - i" arbitrary: i h)
  case 0
  then show ?case by (simp add: copy_loop.simps)
next
  case (Suc d)
  from Suc.hyps(2) have i: "\<not> n \<le> i" by simp
  from Suc.prems i have ok: "\<not> (length h \<le> a \<or> length (n_o (h ! a)) \<le> i)"
    by (subst (asm) copy_loop.simps) (auto split: if_splits)
  from Suc.prems i ok obtain c h1 where
    c: "copy_h j h (n_o (h ! a) ! i) = Inr (c, h1)" and
    l: "copy_loop j (h1[vv := (h1 ! vv)\<lparr>n_o := (n_o (h1 ! vv))[i := Some c]\<rparr>]) a vv (Suc i) n = Inr r"
    by (subst (asm) copy_loop.simps) (auto split: sum.splits)
  from Suc.hyps(2) have d: "d = n - Suc i" by simp
  from Suc.hyps(1) [OF d l] H [OF c] i ok show ?case
    by (subst copy_loop.simps) simp
qed

lemma copy_h_fuel: "copy_h k h p = Inr r \<Longrightarrow> k \<le> k2 \<Longrightarrow> copy_h k2 h p = Inr r"
proof (induction k arbitrary: h p r k2)
  case 0
  then show ?case by (subst (asm) copy_h.simps) (auto split: option.splits if_splits)
next
  case (Suc j)
  from Suc.prems(2) obtain j2 where k2: "k2 = Suc j2" and j2: "j \<le> j2" by (cases k2) auto
  have H: "\<And>h p r. copy_h j h p = Inr r \<Longrightarrow> copy_h j2 h p = Inr r"
    using Suc.IH j2 by blast
  from Suc.prems(1) obtain a where p: "p = Some a" and a: "\<not> length h \<le> a"
    by (subst (asm) copy_h.simps) (auto split: option.splits if_splits)
  let ?h1 = "h @ [(h ! a)\<lparr>n_o := replicate (length (n_o (h ! a))) None\<rparr>]"
  from Suc.prems(1) p a obtain h2 where
    l: "copy_loop j ?h1 a (length h) 0 (length (n_o (h ! a))) = Inr h2"
    by (subst (asm) copy_h.simps) (auto split: sum.splits)
  note l2 = copy_loop_fuel [OF H l]
  show ?case
  proof (cases "n_e (h2 ! a)")
    case None
    with Suc.prems(1) p a l l2 show ?thesis
      unfolding k2 by (subst copy_h.simps, subst (asm) copy_h.simps) simp
  next
    case (Some b)
    with Suc.prems(1) p a l obtain c h3 where
      c: "copy_h j h2 (Some b) = Inr (c, h3)"
      by (subst (asm) copy_h.simps) (auto split: sum.splits)
    from Suc.prems(1) p a l Some c H [OF c] l2 show ?thesis
      unfolding k2 by (subst copy_h.simps, subst (asm) copy_h.simps) simp
  qed
qed

lemma copy_h_Inr:
  assumes c: "copy_h k h (Some a) = Inr (b, h1)" and r: "repr h {..<length h} (Some a) v"
  shows "b = length h \<and> length h < length h1 \<and> take (length h) h1 = h \<and>
         repr h1 {length h..<length h1} (Some (length h)) v"
proof -
  have d: "depth v \<le> max k (depth v)" by simp
  from copy_h_correct [OF r d] obtain h2 where
    h2: "copy_h (max k (depth v)) h (Some a) = Inr (length h, h2)" "length h < length h2"
        "take (length h) h2 = h" "repr h2 {length h..<length h2} (Some (length h)) v"
    by blast
  have "k \<le> max k (depth v)" by simp
  from copy_h_fuel [OF c this] h2(1) have "b = length h" "h1 = h2" by simp_all
  with h2 show ?thesis by simp
qed

lemma agree_frame:
  assumes "length h \<le> length g" and "\<And>a. a \<in> S \<Longrightarrow> a < length h \<Longrightarrow> g ! a = h ! a"
  shows "agree S h g"
  using assms unfolding agree_def by auto

lemma store_ops:
  "s_heap (set_hdr st a g) = write_hdr (s_heap st) a g"
  "s_objs (set_hdr st a g) = s_objs st"
  "s_heap (set_e st a p) = (s_heap st)[a := (s_heap st ! a)\<lparr>n_e := p\<rparr>]"
  "s_objs (set_e st a p) = s_objs st"
  "s_heap (append_o st a el) = (s_heap st)[a := (s_heap st ! a)\<lparr>n_o := n_o (s_heap st ! a) @ [Some el]\<rparr>]"
  "s_objs (append_o st a el) = s_objs st"
  "s_heap (new_value st hv) = s_heap st @ [new_node hv]"
  "s_objs (new_value st hv) = s_objs st"
  by (simp_all add: set_hdr_def set_e_def append_o_def new_value_def)

lemma agree_update: "c \<notin> S \<Longrightarrow> agree S h (h[c := x])"
proof (rule agree_frame)
  show "length h \<le> length (h[c := x])" by simp
  fix a assume "c \<notin> S" "a \<in> S"
  then have "c \<noteq> a" by auto
  then show "h[c := x] ! a = h ! a" by simp
qed

lemma agree_update2: "c \<notin> S \<Longrightarrow> d \<notin> S \<Longrightarrow> agree S h (h[d := y, c := x])"
proof (rule agree_frame)
  show "length h \<le> length (h[d := y, c := x])" by simp
  fix a assume "c \<notin> S" "d \<notin> S" "a \<in> S"
  then have "c \<noteq> a" "d \<noteq> a" by auto
  then show "h[d := y, c := x] ! a = h ! a" by simp
qed

lemma repr_root:
  assumes "repr h S (Some a) (Value hv fs el)"
  shows "repr (write_hdr h a g) S (Some a) (Value (g hv) fs el)"
proof -
  let ?g = "write_hdr h a g"
  from assms have a: "a \<in> S" "a < length h" "n_hdr (h ! a) = hv"
    and fs: "repr_list h (S - {a}) (n_o (h ! a)) fs" by simp_all
  have ag: "agree (S - {a}) h ?g"
    by (rule agree_frame) (auto simp: write_hdr_def)
  have cell: "?g ! a = (h ! a)\<lparr>n_hdr := g hv\<rparr>" using a by (simp add: write_hdr_def)
  have len: "a < length ?g" using a by (simp add: write_hdr_def)
  have fs2: "repr_list ?g (S - {a}) (n_o (h ! a)) fs" by (rule repr_agree(2) [OF fs ag])
  show ?thesis
  proof (cases el)
    case None
    with assms a len fs2 show ?thesis by (simp add: cell)
  next
    case (Some x)
    with assms have "repr h (S - {a}) (n_e (h ! a)) x" by simp
    from repr_agree(1) [OF this ag] Some a len fs2 show ?thesis by (simp add: cell)
  qed
qed

lemma repr_fresh:
  "repr (h @ [new_node g]) {length h} (Some (length h)) (Value g [] None)"
  by (simp add: new_node_def)

lemma reg_ok_agree:
  assumes "reg_ok st G" and "agree G (s_heap st) (s_heap st2)"
    and "length (s_heap st) \<le> length (s_heap st2)" and "s_objs st2 = s_objs st"
  shows "reg_ok st2 G"
  using assms repr_agree(1) unfolding reg_ok_def by fastforce

lemma reg_ok_mono:
  assumes "reg_ok st G" and "G \<subseteq> G2" and "G2 \<subseteq> {..<length (s_heap st)}"
  shows "reg_ok st G2"
  using assms repr_mono(1) unfolding reg_ok_def by blast

lemma grown_refl: "reg_ok st G \<Longrightarrow> grown M st G st G"
  by (simp add: grown_def)

lemma grown_trans:
  assumes "grown M st G st1 G1" and "grown M1 st1 G1 st2 G2"
    and "M1 \<inter> {..<length (s_heap st)} \<subseteq> M"
  shows "grown M st G st2 G2"
  unfolding grown_def
proof (intro conjI allI impI)
  note a = assms(1) [unfolded grown_def] and b = assms(2) [unfolded grown_def]
  show "length (s_heap st) \<le> length (s_heap st2)" using a b by simp
  show "G \<subseteq> G2" using a b by blast
  show "G2 - G \<subseteq> {length (s_heap st)..<length (s_heap st2)}"
  proof
    fix x assume x: "x \<in> G2 - G"
    show "x \<in> {length (s_heap st)..<length (s_heap st2)}"
    proof (cases "x \<in> G1")
      case True
      with x a have "x \<in> {length (s_heap st)..<length (s_heap st1)}" by blast
      with b show ?thesis by simp
    next
      case False
      with x b have "x \<in> {length (s_heap st1)..<length (s_heap st2)}" by blast
      with a show ?thesis by simp
    qed
  qed
  show "reg_ok st2 G2" using b by simp
  show "\<And>nm a. s_objs st nm = Some a \<Longrightarrow> s_objs st2 nm = Some a" using a b by blast
  fix c assume c: "c < length (s_heap st)" "c \<notin> M"
  with assms(3) have "c \<notin> M1" by auto
  moreover from c a have "c < length (s_heap st1)" by simp
  ultimately have "s_heap st2 ! c = s_heap st1 ! c" using b by blast
  with a c show "s_heap st2 ! c = s_heap st ! c" by simp
qed

lemma grown_weaken: "grown M st G st2 G2 \<Longrightarrow> M \<inter> {..<length (s_heap st)} \<subseteq> M2 \<Longrightarrow> grown M2 st G st2 G2"
  unfolding grown_def by auto

lemma grown_new:
  assumes "reg_ok st G"
  shows "grown M st G (new_value st g) G"
proof -
  have "agree G (s_heap st) (s_heap (new_value st g))"
    by (rule agree_frame) (auto simp: new_value_def nth_append)
  from reg_ok_agree [OF assms this] have "reg_ok (new_value st g) G"
    by (simp add: new_value_def)
  then show ?thesis
    unfolding grown_def by (auto simp: new_value_def nth_append)
qed

lemma grown_update:
  assumes "reg_ok st G" and "c \<notin> G" and "length (s_heap st) \<le> c \<or> c \<in> M"
    and "s_heap st2 = (s_heap st)[c := x]" and "s_objs st2 = s_objs st"
  shows "grown M st G st2 G"
proof -
  have "agree G (s_heap st) (s_heap st2)"
  proof (rule agree_frame)
    show "length (s_heap st) \<le> length (s_heap st2)" using assms(4) by simp
    fix a assume "a \<in> G"
    with assms(2) have "c \<noteq> a" by auto
    then show "s_heap st2 ! a = s_heap st ! a" using assms(4) by simp
  qed
  from reg_ok_agree [OF assms(1) this] assms(4,5) have r: "reg_ok st2 G" by simp
  have "s_heap st2 ! a = s_heap st ! a" if "a < length (s_heap st)" "a \<notin> M" for a
  proof -
    from that assms(3) have "c \<noteq> a" by auto
    then show ?thesis using assms(4) by simp
  qed
  with r assms(4,5) show ?thesis
    unfolding grown_def by simp
qed

lemma grown_set_hdr:
  assumes "reg_ok st G" and "c \<notin> G" and "length (s_heap st) \<le> c \<or> c \<in> M"
  shows "grown M st G (set_hdr st c g) G"
  by (rule grown_update [OF assms]) (simp_all add: set_hdr_def write_hdr_def)

lemma grown_set_e:
  assumes "reg_ok st G" and "c \<notin> G" and "length (s_heap st) \<le> c \<or> c \<in> M"
  shows "grown M st G (set_e st c p) G"
  by (rule grown_update [OF assms]) (simp_all add: set_e_def)

lemma grown_append_o:
  assumes "reg_ok st G" and "c \<notin> G" and "length (s_heap st) \<le> c \<or> c \<in> M"
  shows "grown M st G (append_o st c el) G"
  by (rule grown_update [OF assms]) (simp_all add: append_o_def)

lemma grown_reg: "grown M st G st2 G2 \<Longrightarrow> reg_ok st2 G2"
  by (simp add: grown_def)

lemma grown_take:
  assumes "grown {} st G st2 G2"
  shows "take (length (s_heap st)) (s_heap st2) = s_heap st"
  using assms unfolding grown_def by (auto intro!: nth_equalityI)

lemma grown_old_private:
  assumes "grown M st G st2 G2" and "Q \<subseteq> {..<length (s_heap st)} - G"
  shows "Q \<subseteq> {..<length (s_heap st2)} - G2"
  using assms unfolding grown_def by fastforce

lemma grown_repr:
  assumes "grown M st G st2 G2" and "repr (s_heap st) S p v" and "S \<inter> M = {}"
  shows "repr (s_heap st2) S p v"
proof -
  have "agree S (s_heap st) (s_heap st2)"
    by (rule agree_frame) (use assms(1,3) in \<open>auto simp: grown_def\<close>)
  from repr_agree(1) [OF assms(2) this] show ?thesis .
qed

declare encodeItem_h.simps [simp del] parseFields_h.simps [simp del]
  parseASTFieldType_h.simps [simp del] parseDims_h.simps [simp del]

lemma owned_mono: "owned st A p \<Longrightarrow> A \<subseteq> B \<Longrightarrow> owned st B p"
  unfolding owned_def by blast

lemma owned_root: "owned st A (Some c) \<Longrightarrow> c \<in> A \<and> c < length (s_heap st)"
  unfolding owned_def using repr_Some by fastforce

lemma repr_append_field:
  assumes r: "repr h A (Some c) (Value hv fs el0)" and ag: "agree (A - {c}) h g"
    and cell: "g ! c = (h ! c)\<lparr>n_o := n_o (h ! c) @ [Some b]\<rparr>" and len: "length h \<le> length g"
    and w: "repr g S (Some b) w" and c: "c \<notin> S"
  shows "repr g (A \<union> S) (Some c) (Value hv (fs @ [w]) el0)"
proof -
  from r have a: "c \<in> A" "c < length h" "n_hdr (h ! c) = hv"
    and fs: "repr_list h (A - {c}) (n_o (h ! c)) fs" by simp_all
  have sub1: "A - {c} \<subseteq> (A \<union> S) - {c}" by auto
  have sub2: "S \<subseteq> (A \<union> S) - {c}" using c by auto
  have fs2: "repr_list g ((A \<union> S) - {c}) (n_o (h ! c)) fs"
    by (rule repr_mono(2) [OF repr_agree(2) [OF fs ag] sub1])
  have w2: "repr g ((A \<union> S) - {c}) (Some b) w" by (rule repr_mono(1) [OF w sub2])
  have l: "length (n_o (h ! c)) = length fs" using fs by (rule repr_list_length)
  have fs3: "repr_list g ((A \<union> S) - {c}) (n_o (h ! c) @ [Some b]) (fs @ [w])"
    using fs2 w2 by (simp add: repr_list_snoc [OF l])
  show ?thesis
  proof (cases el0)
    case None
    with r a len fs3 show ?thesis by (simp add: cell)
  next
    case (Some x)
    with r have "repr h (A - {c}) (n_e (h ! c)) x" by simp
    from repr_mono(1) [OF repr_agree(1) [OF this ag] sub1] Some a len fs3
    show ?thesis by (simp add: cell)
  qed
qed

lemma parseFields_h_grows:
  assumes F: "\<And>st tags expr p st2 G. reg_ok st G \<Longrightarrow>
      parseASTFieldType_h X n k raw st tags expr = Inr (p, st2) \<Longrightarrow>
      \<exists>G2. grown {} st G st2 G2 \<and>
        (p = None \<or> owned st2 ({length (s_heap st)..<length (s_heap st2)} - G2) p)"
  shows "reg_ok st G \<Longrightarrow> owned st A (Some c) \<Longrightarrow> A \<subseteq> {..<length (s_heap st)} - G \<Longrightarrow>
         parseFields_h X n k raw st c flds = Inr st2 \<Longrightarrow>
         \<exists>G2. grown {c} st G st2 G2 \<and>
           owned st2 ((A \<union> {length (s_heap st)..<length (s_heap st2)}) - G2) (Some c)"
proof (induction flds arbitrary: st G A)
  case Nil
  then have "st2 = st" by (simp add: parseFields_h.simps)
  moreover have "A \<subseteq> (A \<union> {length (s_heap st)..<length (s_heap st)}) - G"
    using Nil.prems(3) by auto
  ultimately show ?case
    using grown_refl [OF Nil.prems(1)] owned_mono [OF Nil.prems(2)] by blast
next
  case (Cons f rest)
  let ?h = "s_heap st"
  show ?case
  proof (cases "parseFields_h X n k raw st c (f # rest) = parseFields_h X n k raw st c rest")
    case True
    with Cons.prems(4) have "parseFields_h X n k raw st c rest = Inr st2" by simp
    from Cons.IH [OF Cons.prems(1-3) this] show ?thesis .
  next
    case False
    then obtain p st1 where
      call: "parseASTFieldType_h X n k raw st (case Tag f of None \<Rightarrow> [] | Some tg \<Rightarrow> tg) (FType f)
               = Inr (p, st1)"
      using Cons.prems(4)
      by (subst (asm) (1 2) parseFields_h.simps) (auto split: if_splits sum.splits)
    from F [OF Cons.prems(1) call] obtain G1 where
      g1: "grown {} st G st1 G1" and
      own: "p = None \<or> owned st1 ({length ?h..<length (s_heap st1)} - G1) p" by blast
    note reg1 = grown_reg [OF g1]
    from Cons.prems(2) obtain S0 v0 where r0: "repr ?h S0 (Some c) v0" and S0: "S0 \<subseteq> A"
      unfolding owned_def by blast
    have r1: "repr (s_heap st1) S0 (Some c) v0" by (rule grown_repr [OF g1 r0]) simp
    have A1: "A \<subseteq> {..<length (s_heap st1)} - G1" by (rule grown_old_private [OF g1 Cons.prems(3)])
    have len1: "length ?h \<le> length (s_heap st1)" using g1 by (simp add: grown_def)
    have cA: "c \<in> A" "c < length ?h" using owned_root [OF Cons.prems(2)] by simp_all
    show ?thesis
    proof (cases p)
      case None
      with call False Cons.prems(4) have rest: "parseFields_h X n k raw st1 c rest = Inr st2"
        by (subst (asm) (1 2) parseFields_h.simps) (auto split: if_splits sum.splits)
      have o1: "owned st1 A (Some c)" using r1 S0 unfolding owned_def by blast
      from Cons.IH [OF reg1 o1 A1 rest] obtain G2 where
        g2: "grown {c} st1 G1 st2 G2" and
        o2: "owned st2 ((A \<union> {length (s_heap st1)..<length (s_heap st2)}) - G2) (Some c)" by blast
      have g: "grown {c} st G st2 G2"
        by (rule grown_trans [OF grown_weaken [OF g1] g2]) auto
      have "(A \<union> {length (s_heap st1)..<length (s_heap st2)}) - G2
              \<subseteq> (A \<union> {length ?h..<length (s_heap st2)}) - G2"
        using len1 by auto
      from g owned_mono [OF o2 this] show ?thesis by blast
    next
      case (Some el)
      let ?g = "\<lambda>h. h\<lparr>f_name := hd (Names f)\<rparr>"
      let ?st2 = "set_hdr st1 el ?g"
      let ?st3 = "append_o ?st2 c el"
      from Some call False Cons.prems(4) have rest: "parseFields_h X n k raw ?st3 c rest = Inr st2"
        by (subst (asm) (1 2) parseFields_h.simps) (auto split: if_splits sum.splits)
      from own Some obtain S w where
        w: "repr (s_heap st1) S (Some el) w" and S: "S \<subseteq> {length ?h..<length (s_heap st1)} - G1"
        unfolding owned_def by auto
      from repr_Some [OF w] have el: "el \<in> S" "el < length (s_heap st1)" by simp_all
      with S have el2: "el \<notin> G1" "length ?h \<le> el" by auto
      have cel: "c \<noteq> el" using cA el2 by simp
      have cS: "c \<notin> S" using cA S by auto
      have cG1: "c \<notin> G1" using cA A1 by auto
      have g12: "grown {el} st1 G1 ?st2 G1"
        by (rule grown_set_hdr [OF reg1 el2(1)]) simp
      note reg2 = grown_reg [OF g12]
      have g23: "grown {c} ?st2 G1 ?st3 G1"
        by (rule grown_append_o [OF reg2 cG1]) simp
      note reg3 = grown_reg [OF g23]
      have g13: "grown {c, el} st1 G1 ?st3 G1"
        by (rule grown_trans [OF grown_weaken [OF g12] g23]) auto
      obtain hw fw ew where wv: "w = Value hw fw ew" by (cases w)
      have w2: "repr (s_heap ?st2) S (Some el) (Value (?g hw) fw ew)"
        using repr_root [OF w [unfolded wv]] by (simp add: set_hdr_def)
      have ag23: "agree S (s_heap ?st2) (s_heap ?st3)"
        unfolding append_o_def using agree_update [OF cS] by simp
      have w3: "repr (s_heap ?st3) S (Some el) (Value (?g hw) fw ew)"
        by (rule repr_agree(1) [OF w2 ag23])
      obtain hv fs el0 where v0: "v0 = Value hv fs el0" by (cases v0)
      have "el \<notin> S0 - {c}" using S0 Cons.prems(3) el2 by auto
      moreover have "c \<notin> S0 - {c}" by simp
      ultimately have ag: "agree (S0 - {c}) (s_heap st1) (s_heap ?st3)"
        unfolding append_o_def set_hdr_def write_hdr_def
        using agree_update2 [of c "S0 - {c}" el] by simp
      have cell: "s_heap ?st3 ! c = (s_heap st1 ! c)\<lparr>n_o := n_o (s_heap st1 ! c) @ [Some el]\<rparr>"
        using cel cA len1 by (simp add: append_o_def set_hdr_def write_hdr_def)
      have len3: "length (s_heap st1) \<le> length (s_heap ?st3)"
        by (simp add: append_o_def set_hdr_def write_hdr_def)
      have r3: "repr (s_heap ?st3) (S0 \<union> S) (Some c) (Value hv (fs @ [Value (?g hw) fw ew]) el0)"
        by (rule repr_append_field [OF r1 [unfolded v0] ag cell len3 w3 cS])
      have l3: "length (s_heap ?st3) = length (s_heap st1)"
        by (simp add: append_o_def set_hdr_def write_hdr_def)
      have A3: "A \<union> S \<subseteq> {..<length (s_heap ?st3)} - G1"
        using A1 S l3 by auto
      have o3: "owned ?st3 (A \<union> S) (Some c)"
        using r3 S0 unfolding owned_def by blast
      from Cons.IH [OF reg3 o3 A3 rest] obtain G2 where
        g2: "grown {c} ?st3 G1 st2 G2" and
        o2: "owned st2 (((A \<union> S) \<union> {length (s_heap ?st3)..<length (s_heap st2)}) - G2) (Some c)"
        by blast
      have g03: "grown {c} st G ?st3 G1"
        by (rule grown_trans [OF grown_weaken [OF g1] g13]) (use el2 in auto)
      have g: "grown {c} st G st2 G2"
        by (rule grown_trans [OF g03 g2]) auto
      have l2: "length (s_heap ?st3) \<le> length (s_heap st2)" using g2 by (simp add: grown_def)
      have "((A \<union> S) \<union> {length (s_heap ?st3)..<length (s_heap st2)}) - G2
              \<subseteq> (A \<union> {length ?h..<length (s_heap st2)}) - G2"
        using S l3 len1 l2 by auto
      from g owned_mono [OF o2 this] show ?thesis by blast
    qed
  qed
qed

lemma new_value_post:
  assumes "reg_ok st G"
  shows "grown {} st G (new_value st g) G \<and>
         owned (new_value st g)
           ({length (s_heap st)..<length (s_heap (new_value st g))} - G) (Some (length (s_heap st)))"
proof -
  have "repr (s_heap (new_value st g)) {length (s_heap st)} (Some (length (s_heap st)))
          (Value g [] None)"
    using repr_fresh by (simp add: new_value_def)
  moreover have "{length (s_heap st)} \<subseteq> {length (s_heap st)..<length (s_heap (new_value st g))} - G"
    using assms by (auto simp: reg_ok_def new_value_def)
  ultimately show ?thesis
    using grown_new [OF assms] unfolding owned_def by blast
qed

lemma set_hdr_post:
  assumes g1: "grown {} st G st1 G1"
    and own: "owned st1 ({length (s_heap st)..<length (s_heap st1)} - G1) (Some a)"
  shows "grown {} st G (set_hdr st1 a g) G1 \<and>
         owned (set_hdr st1 a g)
           ({length (s_heap st)..<length (s_heap (set_hdr st1 a g))} - G1) (Some a)"
proof -
  from own obtain S v where r: "repr (s_heap st1) S (Some a) v"
    and S: "S \<subseteq> {length (s_heap st)..<length (s_heap st1)} - G1"
    unfolding owned_def by blast
  from repr_Some [OF r] S have a: "a \<notin> G1" "length (s_heap st) \<le> a" by auto
  have "grown {a} st1 G1 (set_hdr st1 a g) G1"
    by (rule grown_set_hdr [OF grown_reg [OF g1] a(1)]) simp
  from grown_trans [OF g1 this] a have g: "grown {} st G (set_hdr st1 a g) G1" by auto
  obtain hv fs el where v: "v = Value hv fs el" by (cases v)
  from repr_root [OF r [unfolded v]]
  have r2: "repr (s_heap (set_hdr st1 a g)) S (Some a) (Value (g hv) fs el)"
    by (simp only: store_ops)
  have l: "length (s_heap (set_hdr st1 a g)) = length (s_heap st1)"
    by (simp add: set_hdr_def write_hdr_def)
  have "owned (set_hdr st1 a g)
           ({length (s_heap st)..<length (s_heap (set_hdr st1 a g))} - G1) (Some a)"
    unfolding owned_def l using r2 S by blast
  with g show ?thesis by blast
qed

lemma repr_set_elem:
  assumes r: "repr h A (Some c) (Value hv fs el0)" and ag: "agree (A - {c}) h g"
    and len: "length h \<le> length g"
    and cell: "n_hdr (g ! c) = hh" "n_o (g ! c) = n_o (h ! c)" "n_e (g ! c) = p"
    and el: "p = None \<and> el1 = None \<or> (\<exists>x. el1 = Some x \<and> repr g S p x \<and> c \<notin> S)"
  shows "repr g (A \<union> S) (Some c) (Value hh fs el1)"
proof -
  from r have a: "c \<in> A" "c < length h"
    and fs: "repr_list h (A - {c}) (n_o (h ! c)) fs" by simp_all
  have sub1: "A - {c} \<subseteq> (A \<union> S) - {c}" by auto
  have fs2: "repr_list g ((A \<union> S) - {c}) (n_o (h ! c)) fs"
    by (rule repr_mono(2) [OF repr_agree(2) [OF fs ag] sub1])
  from el show ?thesis
  proof
    assume "p = None \<and> el1 = None"
    with a len fs2 cell show ?thesis by simp
  next
    assume "\<exists>x. el1 = Some x \<and> repr g S p x \<and> c \<notin> S"
    then obtain x where x: "el1 = Some x" "repr g S p x" "c \<notin> S" by blast
    then have "S \<subseteq> (A \<union> S) - {c}" by auto
    from repr_mono(1) [OF x(2) this] x(1) a len fs2 cell show ?thesis by simp
  qed
qed

lemma set_hdr_owner:
  assumes reg: "reg_ok st G" and own: "owned st A (Some c)" and A: "A \<subseteq> {..<length (s_heap st)} - G"
  shows "grown {c} st G (set_hdr st c g) G \<and> owned (set_hdr st c g) A (Some c) \<and>
         length (s_heap (set_hdr st c g)) = length (s_heap st) \<and>
         n_hdr (s_heap (set_hdr st c g) ! c) = g (n_hdr (s_heap st ! c))"
proof -
  from owned_root [OF own] A have c: "c \<notin> G" "c < length (s_heap st)" by auto
  have g: "grown {c} st G (set_hdr st c g) G"
    by (rule grown_set_hdr [OF reg c(1)]) simp
  from own obtain S v where r: "repr (s_heap st) S (Some c) v" and S: "S \<subseteq> A"
    unfolding owned_def by blast
  obtain hv fs el where v: "v = Value hv fs el" by (cases v)
  from repr_root [OF r [unfolded v]]
  have "repr (s_heap (set_hdr st c g)) S (Some c) (Value (g hv) fs el)"
    by (simp only: store_ops)
  with S have o: "owned (set_hdr st c g) A (Some c)" unfolding owned_def by blast
  have l: "length (s_heap (set_hdr st c g)) = length (s_heap st)"
    by (simp add: set_hdr_def write_hdr_def)
  have "n_hdr (s_heap (set_hdr st c g) ! c) = g (n_hdr (s_heap st ! c))"
    using c by (simp add: set_hdr_def write_hdr_def)
  with g o l show ?thesis by blast
qed

lemma parseASTFieldType_h_cases:
  assumes call: "parseASTFieldType_h X n k raw st tags expr = Inr (p, st2)"
  obtains
    (omit) "p = None" "st2 = st"
  | (leaf) g where "p = Some (length (s_heap st))" "st2 = new_value st g"
  | (named) nm a where "encodeItem_h X n k raw st nm tags = Inr (a, st2)" "p = Some a"
  | (noted) nm a st1 g where "encodeItem_h X n k raw st nm tags = Inr (a, st1)" "p = Some a"
      "st2 = set_hdr st1 a g"
  | (array) len elt dims where "expr = ArrayType len elt" "p = Some (length (s_heap st))"
      "parseDims_h X n k raw (new_value st hdr0) tags dims len elt (length (s_heap st)) = Inr st2"
proof (cases "getTags tags ''ssz'' = Some ''-''")
  case True
  with call have "p = None" "st2 = st"
    by (subst (asm) parseASTFieldType_h.simps, simp)+
  then show thesis by (rule omit)
next
  case nt: False
  show thesis
  proof (cases expr)
    case (StarExpr x)
    show thesis
    proof (cases x)
      case (Ident nm)
      with call nt StarExpr obtain a where
        "encodeItem_h X n k raw st nm tags = Inr (a, st2)" "p = Some a"
        by (subst (asm) parseASTFieldType_h.simps) (auto split: sum.splits)
      then show thesis by (rule named)
    next
      case (SelectorExpr x2 sel)
      with call nt StarExpr obtain a st1 rf where
        "encodeItem_h X n k raw st sel tags = Inr (a, st1)" "p = Some a"
        "st2 = set_hdr st1 a (\<lambda>h. h\<lparr>f_ref := rf\<rparr>)"
        by (subst (asm) parseASTFieldType_h.simps) (auto split: sum.splits Expr.splits)
      then show thesis by (rule noted)
    qed (use call nt StarExpr in \<open>subst (asm) parseASTFieldType_h.simps, simp\<close>)+
  next
    case (ArrayType len elt)
    with call nt obtain dims where "p = Some (length (s_heap st))"
      "parseDims_h X n k raw (new_value st hdr0) tags dims len elt (length (s_heap st)) = Inr st2"
      by (subst (asm) parseASTFieldType_h.simps) (auto split: sum.splits)
    with ArrayType show thesis by (rule array)
  next
    case (Ident nm)
    with call nt have
      "(\<exists>g. p = Some (length (s_heap st)) \<and> st2 = new_value st g) \<or>
       (\<exists>a. encodeItem_h X n k raw st nm tags = Inr (a, st2) \<and> p = Some a)"
      by (subst (asm) parseASTFieldType_h.simps)
         (auto split: sum.splits if_splits error.splits)
    then show thesis using leaf named by blast
  next
    case (SelectorExpr x sel)
    with call nt have
      "(\<exists>g. p = Some (length (s_heap st)) \<and> st2 = new_value st g) \<or>
       (\<exists>a st1 g. encodeItem_h X n k raw st sel tags = Inr (a, st1) \<and> p = Some a \<and>
          st2 = set_hdr st1 a g)"
      by (subst (asm) parseASTFieldType_h.simps)
         (auto split: sum.splits if_splits Expr.splits option.splits)
    then show thesis using leaf noted by blast
  qed (use call nt in \<open>subst (asm) parseASTFieldType_h.simps, simp\<close>)+
qed

lemma parseDims_h_cases:
  assumes call: "parseDims_h X n k raw st tags (d # dims) len elt c = Inr st2"
  obtains
    (nested) hh len2 elt2 where "elt = ArrayType len2 elt2"
      "parseDims_h X n k raw
         (set_e (new_value (set_hdr st c (\<lambda>h. hh)) hdr0) c (Some (length (s_heap st))))
         tags dims len2 elt2 (length (s_heap st)) = Inr st2"
  | (byte) g where "parseDims_h X n k raw (set_hdr st c g) tags dims len elt c = Inr st2"
  | (element) hh element st1 where
      "parseASTFieldType_h X n k raw (set_hdr st c (\<lambda>h. hh)) tags elt = Inr (element, st1)"
      "parseDims_h X n k raw (set_e st1 c element) tags dims len elt c = Inr st2"
proof -
  from call obtain astSize hh where
    sz: "array_size X len = Inr astSize"
    and ck: "check_size astSize (apply_dim d (n_hdr (s_heap st ! c))) = Inr hh"
    by (subst (asm) parseDims_h.simps) (auto split: sum.splits)
  have elem: thesis
    if "parseDims_h X n k raw st tags (d # dims) len elt c =
          (case parseASTFieldType_h X n k raw (set_hdr st c (\<lambda>h. hh)) tags elt of
             Inl err \<Rightarrow> Inl err
           | Inr (element, st1) \<Rightarrow> parseDims_h X n k raw (set_e st1 c element) tags dims len elt c)"
  proof -
    from that call obtain element st1 where
      "parseASTFieldType_h X n k raw (set_hdr st c (\<lambda>h. hh)) tags elt = Inr (element, st1)"
      "parseDims_h X n k raw (set_e st1 c element) tags dims len elt c = Inr st2"
      by (auto split: sum.splits)
    then show thesis by (rule element)
  qed
  show thesis
  proof (cases elt)
    case (ArrayType len2 elt2)
    with call sz ck have
      "parseDims_h X n k raw
         (set_e (new_value (set_hdr st c (\<lambda>h. hh)) hdr0) c (Some (length (s_heap st))))
         tags dims len2 elt2 (length (s_heap st)) = Inr st2"
      by (subst (asm) parseDims_h.simps) simp
    with ArrayType show thesis by (rule nested)
  next
    case (Ident nm)
    show thesis
    proof (cases "nm = ''byte''")
      case True
      with call sz ck Ident have
        "parseDims_h X n k raw (set_hdr st c (\<lambda>h. byte_dim d hh)) tags dims len elt c = Inr st2"
        by (subst (asm) parseDims_h.simps) simp
      then show thesis by (rule byte)
    next
      case False
      show thesis
        by (rule elem) (use sz ck Ident False in \<open>subst parseDims_h.simps, simp\<close>)
    qed
  qed (rule elem, use sz ck in \<open>subst parseDims_h.simps, simp\<close>)+
qed

lemma set_e_owner:
  assumes reg: "reg_ok st G" and r: "repr (s_heap st) S0 (Some c) v0"
    and S0: "S0 \<subseteq> {..<length (s_heap st)} - G"
    and el: "p = None \<and> S = {} \<or> (\<exists>x. repr (s_heap st) S p x \<and> c \<notin> S)"
  shows "grown {c} st G (set_e st c p) G \<and> owned (set_e st c p) (S0 \<union> S) (Some c) \<and>
         length (s_heap (set_e st c p)) = length (s_heap st)"
proof -
  let ?h = "s_heap st" and ?g = "s_heap (set_e st c p)"
  from repr_Some [OF r] S0 have c: "c \<notin> G" "c < length ?h" by auto
  have g: "grown {c} st G (set_e st c p) G"
    by (rule grown_set_e [OF reg c(1)]) simp
  obtain hv fs el0 where v0: "v0 = Value hv fs el0" by (cases v0)
  have l: "length ?g = length ?h" by (simp add: store_ops)
  have ag: "agree (S0 - {c}) ?h ?g"
    unfolding store_ops by (rule agree_update) simp
  have cell: "n_hdr (?g ! c) = hv" "n_o (?g ! c) = n_o (?h ! c)" "n_e (?g ! c) = p"
    using c r v0 by (simp_all add: store_ops)
  have len: "length ?h \<le> length ?g" using l by simp
  define el1 where "el1 = (if p = None then None else Some (SOME x. repr ?g S p x))"
  have el': "p = None \<and> el1 = None \<or> (\<exists>x. el1 = Some x \<and> repr ?g S p x \<and> c \<notin> S)"
  proof (cases "p = None")
    case True
    then show ?thesis by (simp add: el1_def)
  next
    case False
    with el obtain x where x: "repr ?h S p x" "c \<notin> S" by blast
    have "agree S ?h ?g" unfolding store_ops by (rule agree_update [OF x(2)])
    from repr_agree(1) [OF x(1) this] have "repr ?g S p x" .
    then have "repr ?g S p (SOME x. repr ?g S p x)" by (rule someI)
    with False x(2) show ?thesis by (simp add: el1_def)
  qed
  from repr_set_elem [OF r [unfolded v0] ag len cell el']
  have "owned (set_e st c p) (S0 \<union> S) (Some c)" unfolding owned_def by blast
  with g l show ?thesis by blast
qed

lemma parse_h_grows:
  assumes E: "\<And>st nm tags a st2 G. reg_ok st G \<Longrightarrow>
      encodeItem_h X n k raw st nm tags = Inr (a, st2) \<Longrightarrow>
      \<exists>G2. grown {} st G st2 G2 \<and>
        owned st2 ({length (s_heap st)..<length (s_heap st2)} - G2) (Some a)"
  shows "(\<forall>st tags p st2 G. reg_ok st G \<longrightarrow>
            parseASTFieldType_h X n k raw st tags expr = Inr (p, st2) \<longrightarrow>
            (\<exists>G2. grown {} st G st2 G2 \<and>
               (p = None \<or> owned st2 ({length (s_heap st)..<length (s_heap st2)} - G2) p))) \<and>
         (\<forall>dims st tags len c st2 G A. reg_ok st G \<longrightarrow> owned st A (Some c) \<longrightarrow>
            A \<subseteq> {..<length (s_heap st)} - G \<longrightarrow>
            parseDims_h X n k raw st tags dims len expr c = Inr st2 \<longrightarrow>
            (\<exists>G2. grown {c} st G st2 G2 \<and>
               owned st2 ((A \<union> {length (s_heap st)..<length (s_heap st2)}) - G2) (Some c)))"
proof (induction "size expr" arbitrary: expr rule: less_induct)
  case less
  have Dsub: "\<exists>G2. grown {c} st G st2 G2 \<and>
               owned st2 ((A \<union> {length (s_heap st)..<length (s_heap st2)}) - G2) (Some c)"
    if "size elt < size expr" "reg_ok st G" "owned st A (Some c)"
       "A \<subseteq> {..<length (s_heap st)} - G"
       "parseDims_h X n k raw st tags dims len elt c = Inr st2"
    for elt dims st tags len c st2 G A
    using less.hyps [OF that(1)] that(2-5) by blast
  have Fp: "\<exists>G2. grown {} st G st2 G2 \<and>
               (p = None \<or> owned st2 ({length (s_heap st)..<length (s_heap st2)} - G2) p)"
    if reg: "reg_ok st G" and call: "parseASTFieldType_h X n k raw st tags expr = Inr (p, st2)"
    for st tags p st2 G
    using call
  proof (cases rule: parseASTFieldType_h_cases)
    case omit
    with grown_refl [OF reg] show ?thesis by blast
  next
    case (leaf g)
    with new_value_post [OF reg, of g] show ?thesis by blast
  next
    case (named nm a)
    with E [OF reg named(1)] show ?thesis by blast
  next
    case (noted nm a st1 g)
    from E [OF reg noted(1)] obtain G1 where
      "grown {} st G st1 G1" "owned st1 ({length (s_heap st)..<length (s_heap st1)} - G1) (Some a)"
      by blast
    from set_hdr_post [OF this, of g] noted show ?thesis by blast
  next
    case (array len elt dims)
    let ?c = "length (s_heap st)"
    let ?st1 = "new_value st hdr0"
    from new_value_post [OF reg, of hdr0] have
      g1: "grown {} st G ?st1 G" and
      o1: "owned ?st1 ({?c..<length (s_heap ?st1)} - G) (Some ?c)" by simp_all
    have l1: "length (s_heap ?st1) = Suc ?c" by (simp add: store_ops)
    have A1: "{?c..<length (s_heap ?st1)} - G \<subseteq> {..<length (s_heap ?st1)} - G" by auto
    have sz: "size elt < size expr" using array(1) by simp
    from Dsub [OF sz grown_reg [OF g1] o1 A1 array(3)] obtain G2 where
      g2: "grown {?c} ?st1 G st2 G2" and
      o2: "owned st2 ((({?c..<length (s_heap ?st1)} - G) \<union>
              {length (s_heap ?st1)..<length (s_heap st2)}) - G2) (Some ?c)" by blast
    have g: "grown {} st G st2 G2"
      by (rule grown_trans [OF g1 g2]) simp
    have "(({?c..<length (s_heap ?st1)} - G) \<union> {length (s_heap ?st1)..<length (s_heap st2)}) - G2
            \<subseteq> {?c..<length (s_heap st2)} - G2"
      using l1 g2 by (auto simp: grown_def)
    from g owned_mono [OF o2 this] array(2) show ?thesis by blast
  qed
  have Dp: "reg_ok st G \<Longrightarrow> owned st A (Some c) \<Longrightarrow> A \<subseteq> {..<length (s_heap st)} - G \<Longrightarrow>
            parseDims_h X n k raw st tags dims len expr c = Inr st2 \<Longrightarrow>
            \<exists>G2. grown {c} st G st2 G2 \<and>
               owned st2 ((A \<union> {length (s_heap st)..<length (s_heap st2)}) - G2) (Some c)"
    for dims st tags len c st2 G A
  proof (induction dims arbitrary: st G A)
    case Nil
    then have "st2 = st" by (simp add: parseDims_h.simps)
    moreover have "A \<subseteq> (A \<union> {length (s_heap st)..<length (s_heap st)}) - G"
      using Nil.prems(3) by auto
    ultimately show ?case
      using grown_refl [OF Nil.prems(1)] owned_mono [OF Nil.prems(2)] by blast
  next
    case (Cons d dims)
    let ?h = "s_heap st"
    note reg = Cons.prems(1) and own = Cons.prems(2) and A = Cons.prems(3)
    from owned_root [OF own] A have c: "c \<in> A" "c < length ?h" "c \<notin> G" by auto
    from Cons.prems(4) show ?case
    proof (cases rule: parseDims_h_cases)
      case (byte g)
      from set_hdr_owner [OF reg own A, of g] have
        g1: "grown {c} st G (set_hdr st c g) G" and o1: "owned (set_hdr st c g) A (Some c)" and
        l1: "length (s_heap (set_hdr st c g)) = length ?h" by simp_all
      from A l1 have A1: "A \<subseteq> {..<length (s_heap (set_hdr st c g))} - G" by simp
      from Cons.IH [OF grown_reg [OF g1] o1 A1 byte] obtain G2 where
        g2: "grown {c} (set_hdr st c g) G st2 G2" and
        o2: "owned st2 ((A \<union> {length (s_heap (set_hdr st c g))..<length (s_heap st2)}) - G2) (Some c)"
        by blast
      have "grown {c} st G st2 G2" by (rule grown_trans [OF g1 g2]) simp
      with o2 l1 show ?thesis by auto
    next
      case (element hh el st1)
      let ?st0 = "set_hdr st c (\<lambda>h. hh)"
      from set_hdr_owner [OF reg own A, of "\<lambda>h. hh"] have
        g0: "grown {c} st G ?st0 G" and o0: "owned ?st0 A (Some c)" and
        l0: "length (s_heap ?st0) = length ?h" by simp_all
      from A l0 have A0: "A \<subseteq> {..<length (s_heap ?st0)} - G" by simp
      from Fp [OF grown_reg [OF g0] element(1)] obtain G1 where
        g1: "grown {} ?st0 G st1 G1" and
        oe: "el = None \<or> owned st1 ({length (s_heap ?st0)..<length (s_heap st1)} - G1) el" by blast
      note reg1 = grown_reg [OF g1]
      have A1: "A \<subseteq> {..<length (s_heap st1)} - G1" by (rule grown_old_private [OF g1 A0])
      have len1: "length ?h \<le> length (s_heap st1)" using g1 l0 by (simp add: grown_def)
      from o0 obtain S0 v0 where r0: "repr (s_heap ?st0) S0 (Some c) v0" and S0: "S0 \<subseteq> A"
        unfolding owned_def by blast
      have r1: "repr (s_heap st1) S0 (Some c) v0" by (rule grown_repr [OF g1 r0]) simp
      have S01: "S0 \<subseteq> {..<length (s_heap st1)} - G1" using S0 A1 by blast
      obtain S where S: "S \<subseteq> {length ?h..<length (s_heap st1)} - G1"
        and el: "el = None \<and> S = {} \<or> (\<exists>x. repr (s_heap st1) S el x \<and> c \<notin> S)"
      proof (cases el)
        case None
        then show ?thesis using that [of "{}"] by simp
      next
        case (Some b)
        with oe obtain S x where Sx: "repr (s_heap st1) S el x"
          "S \<subseteq> {length (s_heap ?st0)..<length (s_heap st1)} - G1"
          unfolding owned_def by auto
        from Sx(2) l0 c(2) have "c \<notin> S" "S \<subseteq> {length ?h..<length (s_heap st1)} - G1" by auto
        with Sx(1) show ?thesis using that [of S] by blast
      qed
      let ?st3 = "set_e st1 c el"
      from set_e_owner [OF reg1 r1 S01 el] have
        g3: "grown {c} st1 G1 ?st3 G1" and o3: "owned ?st3 (S0 \<union> S) (Some c)" and
        l3: "length (s_heap ?st3) = length (s_heap st1)" by simp_all
      have A3: "A \<union> S \<subseteq> {..<length (s_heap ?st3)} - G1" using A1 S l3 by auto
      have o3': "owned ?st3 (A \<union> S) (Some c)" by (rule owned_mono [OF o3]) (use S0 in auto)
      from Cons.IH [OF grown_reg [OF g3] o3' A3 element(2)] obtain G2 where
        g2: "grown {c} ?st3 G1 st2 G2" and
        o2: "owned st2 (((A \<union> S) \<union> {length (s_heap ?st3)..<length (s_heap st2)}) - G2) (Some c)"
        by blast
      have g01: "grown {c} st G st1 G1"
        by (rule grown_trans [OF g0 grown_weaken [OF g1]]) auto
      have g03: "grown {c} st G ?st3 G1" by (rule grown_trans [OF g01 g3]) simp
      have g: "grown {c} st G st2 G2" by (rule grown_trans [OF g03 g2]) simp
      have l2: "length (s_heap ?st3) \<le> length (s_heap st2)" using g2 by (simp add: grown_def)
      have "((A \<union> S) \<union> {length (s_heap ?st3)..<length (s_heap st2)}) - G2
              \<subseteq> (A \<union> {length ?h..<length (s_heap st2)}) - G2"
        using S l3 len1 l2 by auto
      from g owned_mono [OF o2 this] show ?thesis by blast
    next
      case (nested hh len2 elt2)
      let ?c2 = "length ?h"
      let ?st0 = "set_hdr st c (\<lambda>h. hh)"
      let ?st1 = "new_value ?st0 hdr0"
      let ?st3 = "set_e ?st1 c (Some ?c2)"
      from set_hdr_owner [OF reg own A, of "\<lambda>h. hh"] have
        g0: "grown {c} st G ?st0 G" and o0: "owned ?st0 A (Some c)" and
        l0: "length (s_heap ?st0) = length ?h" by simp_all
      note reg0 = grown_reg [OF g0]
      have g01: "grown {c} ?st0 G ?st1 G" by (rule grown_new [OF reg0])
      note reg1 = grown_reg [OF g01]
      have l1: "length (s_heap ?st1) = Suc (length ?h)" using l0 by (simp add: store_ops)
      have g13: "grown {c} ?st1 G ?st3 G" by (rule grown_set_e [OF reg1 c(3)]) simp
      note reg3 = grown_reg [OF g13]
      have l3: "length (s_heap ?st3) = Suc (length ?h)" using l1 by (simp add: store_ops)
      have g03: "grown {c} st G ?st3 G"
        by (rule grown_trans [OF grown_trans [OF g0 g01] g13]) simp_all
      have cell2: "s_heap ?st3 ! ?c2 = new_node hdr0"
        using c(2) l0 by (simp add: store_ops nth_append write_hdr_def)
      have "repr (s_heap ?st3) {?c2} (Some ?c2) (Value hdr0 [] None)"
        using l3 by (simp add: cell2 new_node_def)
      then have o3: "owned ?st3 {?c2} (Some ?c2)" unfolding owned_def by blast
      have A3: "{?c2} \<subseteq> {..<length (s_heap ?st3)} - G" using l3 reg by (auto simp: reg_ok_def)
      have sz: "size elt2 < size expr" using nested(1) by simp
      from Dsub [OF sz reg3 o3 A3 nested(2)] obtain G2 where
        g2: "grown {?c2} ?st3 G st2 G2" and
        o2: "owned st2 (({?c2} \<union> {length (s_heap ?st3)..<length (s_heap st2)}) - G2) (Some ?c2)"
        by blast
      have g: "grown {c} st G st2 G2" by (rule grown_trans [OF g03 g2]) simp
      from o2 obtain S2 x where x: "repr (s_heap st2) S2 (Some ?c2) x" and
        S2: "S2 \<subseteq> ({?c2} \<union> {length (s_heap ?st3)..<length (s_heap st2)}) - G2"
        unfolding owned_def by blast
      from own obtain S0 v0 where r0: "repr ?h S0 (Some c) v0" and S0: "S0 \<subseteq> A"
        unfolding owned_def by blast
      obtain hv fs el0 where v0: "v0 = Value hv fs el0" by (cases v0)
      have len2: "length (s_heap ?st3) \<le> length (s_heap st2)" using g2 by (simp add: grown_def)
      have frame: "s_heap st2 ! a = s_heap ?st3 ! a" if "a < length ?h" for a
        using g2 that l3 by (simp add: grown_def)
      have ag: "agree (S0 - {c}) ?h (s_heap st2)"
      proof (rule agree_frame)
        show "length ?h \<le> length (s_heap st2)" using len2 l3 by simp
        fix a assume a: "a \<in> S0 - {c}" "a < length ?h"
        then have "s_heap ?st3 ! a = ?h ! a"
          by (simp add: store_ops nth_append write_hdr_def)
        with frame [OF a(2)] show "s_heap st2 ! a = ?h ! a" by simp
      qed
      have cell: "s_heap st2 ! c = (?h ! c)\<lparr>n_hdr := hh, n_e := Some ?c2\<rparr>"
        using frame [OF c(2)] c(2) by (simp add: store_ops nth_append write_hdr_def)
      have cS2: "c \<notin> S2" using S2 c(2) l3 by auto
      have "repr (s_heap st2) (S0 \<union> S2) (Some c) (Value hh fs (Some x))"
        by (rule repr_set_elem [OF r0 [unfolded v0] ag])
           (use len2 l3 x cS2 in \<open>simp_all add: cell\<close>)
      then have o: "owned st2 (S0 \<union> S2) (Some c)" unfolding owned_def by blast
      have "A \<subseteq> {..<length (s_heap st2)} - G2" by (rule grown_old_private [OF g A])
      moreover have "S2 \<subseteq> {length ?h..<length (s_heap st2)} - G2"
      proof
        fix a assume a: "a \<in> S2"
        with S2 have "a = length ?h \<or> a \<in> {length (s_heap ?st3)..<length (s_heap st2)}" "a \<notin> G2"
          by auto
        with l3 len2 show "a \<in> {length ?h..<length (s_heap st2)} - G2" by auto
      qed
      ultimately have "S0 \<union> S2 \<subseteq> (A \<union> {length ?h..<length (s_heap st2)}) - G2"
        using S0 by blast
      from g owned_mono [OF o this] show ?thesis by blast
    qed
  qed
  from Fp Dp show ?case by blast
qed

lemma encodeItem_h_cases:
  assumes call: "encodeItem_h X n k raw st nm tags = Inr (a2, st2)"
  obtains
    (cached) b h1 where "s_objs st nm = Some b" "copy_h k (s_heap st) (Some b) = Inr (a2, h1)"
      "st2 = st\<lparr>s_heap := h1\<rparr>"
  | (reference) j a g g2 h1 where "n = Suc j" "s_objs st nm = None"
      "a = length (s_heap st)" "copy_h k (write_hdr (s_heap (new_value st g)) a g2) (Some a) = Inr (a2, h1)"
      "st2 = \<lparr>s_heap = h1, s_objs = (s_objs (new_value st g))(nm \<mapsto> a)\<rparr>"
  | (struct) j a g flds st1 g2 h1 where "n = Suc j" "s_objs st nm = None"
      "a = length (s_heap st)"
      "parseFields_h X j k raw (new_value st g) (length (s_heap st)) flds = Inr st1"
      "copy_h k (write_hdr (s_heap st1) a g2) (Some a) = Inr (a2, h1)"
      "st2 = \<lparr>s_heap = h1, s_objs = (s_objs st1)(nm \<mapsto> a)\<rparr>"
  | (aliased) j a ty st1 g2 h1 where "n = Suc j" "s_objs st nm = None"
      "parseASTFieldType_h X j k raw st tags ty = Inr (Some a, st1)"
      "copy_h k (write_hdr (s_heap st1) a g2) (Some a) = Inr (a2, h1)"
      "st2 = \<lparr>s_heap = h1, s_objs = (s_objs st1)(nm \<mapsto> a)\<rparr>"
proof (cases "s_objs st nm")
  case (Some b)
  with call obtain h1 where "copy_h k (s_heap st) (Some b) = Inr (a2, h1)" "st2 = st\<lparr>s_heap := h1\<rparr>"
    by (subst (asm) encodeItem_h.simps) (auto split: sum.splits)
  with Some show thesis by (rule cached)
next
  case None
  with call obtain item j where item: "getRawItemByName raw nm = Some item" and n: "n = Suc j"
    by (subst (asm) encodeItem_h.simps) (auto split: option.splits nat.splits)
  let ?g2 = "\<lambda>h. h\<lparr>f_name := nm, f_obj := nm\<rparr>"
  show thesis
  proof (cases "a_implFunc item")
    case True
    with call None item n obtain h1 g where
      "copy_h k (write_hdr (s_heap (new_value st g)) (length (s_heap st)) ?g2)
         (Some (length (s_heap st))) = Inr (a2, h1)"
      "st2 = \<lparr>s_heap = h1, s_objs = (s_objs (new_value st g))(nm \<mapsto> length (s_heap st))\<rparr>"
      by (subst (asm) encodeItem_h.simps) (auto split: sum.splits)
    with n None show thesis by (intro reference [OF _ _ refl])
  next
    case False
    show thesis
    proof (cases "a_obj item")
      case (Some flds)
      with call None item n False obtain st1 h1 where
        "parseFields_h X j k raw (new_value st (hdr0\<lparr>f_name := nm, f_t := TypeContainer\<rparr>))
           (length (s_heap st)) flds = Inr st1"
        "copy_h k (write_hdr (s_heap st1) (length (s_heap st)) ?g2)
           (Some (length (s_heap st))) = Inr (a2, h1)"
        "st2 = \<lparr>s_heap = h1, s_objs = (s_objs st1)(nm \<mapsto> length (s_heap st))\<rparr>"
        by (subst (asm) encodeItem_h.simps) (auto split: sum.splits error.splits)
      with n None show thesis by (intro struct [OF _ _ refl])
    next
      case no: None
      with call None item n False obtain ty a st1 h1 where
        "parseASTFieldType_h X j k raw st tags ty = Inr (Some a, st1)"
        "copy_h k (write_hdr (s_heap st1) a ?g2) (Some a) = Inr (a2, h1)"
        "st2 = \<lparr>s_heap = h1, s_objs = (s_objs st1)(nm \<mapsto> a)\<rparr>"
        by (subst (asm) encodeItem_h.simps)
           (auto split: sum.splits error.splits option.splits)
      with n None show thesis by (intro aliased)
    qed
  qed
qed

lemma cached_copy:
  assumes reg: "reg_ok st G" and b: "s_objs st nm = Some b"
    and cp: "copy_h k (s_heap st) (Some b) = Inr (a2, h1)"
  shows "\<exists>v. a2 = length (s_heap st) \<and> grown {} st G (st\<lparr>s_heap := h1\<rparr>) G \<and>
           repr h1 {length (s_heap st)..<length h1} (Some a2) v \<and> repr h1 G (Some b) v \<and>
           repr (s_heap st) G (Some b) v"
proof -
  let ?h = "s_heap st"
  from reg b obtain v where v: "repr ?h G (Some b) v" and G: "G \<subseteq> {..<length ?h}"
    unfolding reg_ok_def by blast
  from copy_h_Inr [OF cp repr_mono(1) [OF v G]] have
    c: "a2 = length ?h" "length ?h < length h1" "take (length ?h) h1 = ?h"
       "repr h1 {length ?h..<length h1} (Some (length ?h)) v" by simp_all
  have le: "length ?h \<le> length h1" using c(2) by simp
  have ag: "agree G ?h h1"
    by (rule agree_frame [OF le]) (use extends_nth [OF c(3)] in auto)
  have "reg_ok (st\<lparr>s_heap := h1\<rparr>) G"
    by (rule reg_ok_agree [OF reg]) (use ag le in simp_all)
  then have "grown {} st G (st\<lparr>s_heap := h1\<rparr>) G"
    unfolding grown_def using le extends_nth [OF c(3)] by auto
  with c repr_agree(1) [OF v ag] v show ?thesis by blast
qed

lemma register_and_copy:
  assumes g1: "grown {} st G st1 G1"
    and own: "owned st1 ({length (s_heap st)..<length (s_heap st1)} - G1) (Some a)"
    and none: "s_objs st nm = None"
    and cp: "copy_h k (write_hdr (s_heap st1) a g) (Some a) = Inr (a2, h2)"
  shows "\<exists>G2 v. grown {} st G \<lparr>s_heap = h2, s_objs = (s_objs st1)(nm \<mapsto> a)\<rparr> G2 \<and>
           repr h2 ({length (s_heap st)..<length h2} - G2) (Some a2) v \<and> repr h2 G2 (Some a) v"
proof -
  let ?h = "s_heap st" and ?h1 = "s_heap st1"
  let ?hw = "write_hdr ?h1 a g"
  let ?st2 = "\<lparr>s_heap = h2, s_objs = (s_objs st1)(nm \<mapsto> a)\<rparr>"
  note reg1 = grown_reg [OF g1]
  from own obtain S w where w: "repr ?h1 S (Some a) w" and S: "S \<subseteq> {length ?h..<length ?h1} - G1"
    unfolding owned_def by blast
  obtain hv fs el where wv: "w = Value hv fs el" by (cases w)
  define v where "v = Value (g hv) fs el"
  have rw: "repr ?hw S (Some a) v" unfolding v_def by (rule repr_root [OF w [unfolded wv]])
  have lw: "length ?hw = length ?h1" by (simp add: write_hdr_def)
  have Sw: "S \<subseteq> {..<length ?hw}" using S lw by auto
  from copy_h_Inr [OF cp repr_mono(1) [OF rw Sw]] have
    c: "a2 = length ?hw" "length ?hw < length h2" "take (length ?hw) h2 = ?hw"
       "repr h2 {length ?hw..<length h2} (Some (length ?hw)) v" by simp_all
  from repr_Some [OF w] S have a: "a \<notin> G1" "length ?h \<le> a" "a < length ?h1" by auto
  have G1: "G1 \<subseteq> {..<length ?h1}" using reg1 by (simp add: reg_ok_def)
  have len: "length ?h \<le> length ?h1" using g1 by (simp add: grown_def)
  have old: "h2 ! x = ?hw ! x" if "x < length ?h1" for x
    using extends_nth [OF c(3), of x] that lw by simp
  have agS: "agree S ?hw h2"
    by (rule agree_frame) (use c(2) old Sw lw in auto)
  have agG: "agree G1 ?h1 h2"
  proof (rule agree_frame)
    show "length ?h1 \<le> length h2" using c(2) lw by simp
    fix x assume x: "x \<in> G1" "x < length ?h1"
    with a have "x \<noteq> a" by auto
    then have "?hw ! x = ?h1 ! x" by (simp add: write_hdr_def)
    with old [OF x(2)] show "h2 ! x = ?h1 ! x" by simp
  qed
  define G2 where "G2 = G1 \<union> S"
  have ra: "repr h2 G2 (Some a) v"
    unfolding G2_def by (rule repr_mono(1) [OF repr_agree(1) [OF rw agS]]) simp
  have G2: "G2 \<subseteq> {..<length ?h1}" unfolding G2_def using G1 S by auto
  have "{length ?hw..<length h2} \<subseteq> {length ?h..<length h2} - G2"
    using G2 lw len by auto
  from repr_mono(1) [OF c(4) this] c(1)
  have rc: "repr h2 ({length ?h..<length h2} - G2) (Some a2) v" by simp
  have reg2: "reg_ok ?st2 G2"
    unfolding reg_ok_def
  proof (intro conjI allI impI)
    show "G2 \<subseteq> {..<length (s_heap ?st2)}" using G2 c(2) lw by auto
    fix nm2 b assume b: "s_objs ?st2 nm2 = Some b"
    show "\<exists>u. repr (s_heap ?st2) G2 (Some b) u"
    proof (cases "nm2 = nm")
      case True
      with b ra show ?thesis by auto
    next
      case False
      with b have "s_objs st1 nm2 = Some b" by simp
      with reg1 obtain u where "repr ?h1 G1 (Some b) u" unfolding reg_ok_def by blast
      from repr_mono(1) [OF repr_agree(1) [OF this agG], of G2] show ?thesis
        by (auto simp: G2_def)
    qed
  qed
  have gr: "grown {} st G ?st2 G2"
    unfolding grown_def
  proof (intro conjI allI impI)
    show "length ?h \<le> length (s_heap ?st2)" using len c(2) lw by simp
    show "G \<subseteq> G2" using g1 by (auto simp: grown_def G2_def)
    show "G2 - G \<subseteq> {length ?h..<length (s_heap ?st2)}"
      using g1 S c(2) lw by (auto simp: grown_def G2_def)
    show "reg_ok ?st2 G2" by (rule reg2)
  next
    fix x assume x: "x < length ?h" "x \<notin> {}"
    with len have x1: "x < length ?h1" by simp
    from x a have "x \<noteq> a" by auto
    then have "?hw ! x = ?h1 ! x" by (simp add: write_hdr_def)
    with old [OF x1] g1 x show "s_heap ?st2 ! x = ?h ! x" by (simp add: grown_def)
  next
    fix nm2 b assume b: "s_objs st nm2 = Some b"
    with none have "nm2 \<noteq> nm" by auto
    with b g1 show "s_objs ?st2 nm2 = Some b" by (simp add: grown_def)
  qed
  from gr rc ra show ?thesis by blast
qed

lemma encodeItem_h_private:
  "reg_ok st G \<Longrightarrow> encodeItem_h X n k raw st nm tags = Inr (a2, st2) \<Longrightarrow>
   \<exists>G2 v b. grown {} st G st2 G2 \<and>
     repr (s_heap st2) ({length (s_heap st)..<length (s_heap st2)} - G2) (Some a2) v \<and>
     s_objs st2 nm = Some b \<and> repr (s_heap st2) G2 (Some b) v"
proof (induction n arbitrary: st G nm tags a2 st2)
  case 0
  from 0(2) show ?case
  proof (cases rule: encodeItem_h_cases)
    case (cached b h1)
    from cached_copy [OF 0(1) cached(1,2)] obtain v where
      v: "a2 = length (s_heap st)" "grown {} st G (st\<lparr>s_heap := h1\<rparr>) G"
         "repr h1 {length (s_heap st)..<length h1} (Some a2) v" "repr h1 G (Some b) v" by blast
    from v(2) have "G \<subseteq> {..<length (s_heap st)}"
      using 0(1) by (simp add: reg_ok_def)
    then have "{length (s_heap st)..<length h1} \<subseteq> {length (s_heap st)..<length h1} - G" by auto
    from repr_mono(1) [OF v(3) this] v(2,4) cached(1,3) show ?thesis by auto
  qed simp_all
next
  case (Suc j)
  note reg = Suc.prems(1)
  have E: "\<exists>G2. grown {} st G st2 G2 \<and>
        owned st2 ({length (s_heap st)..<length (s_heap st2)} - G2) (Some a)"
    if "reg_ok st G" "encodeItem_h X j k raw st nm tags = Inr (a, st2)" for st nm tags a st2 G
    using Suc.IH [OF that] unfolding owned_def by blast
  have F: "\<exists>G2. grown {} st G st2 G2 \<and>
           (p = None \<or> owned st2 ({length (s_heap st)..<length (s_heap st2)} - G2) p)"
    if "reg_ok st G" "parseASTFieldType_h X j k raw st tags expr = Inr (p, st2)"
    for st G tags expr p st2
    by (rule parse_h_grows [THEN conjunct1, rule_format, OF _ that]) (rule E)
  have P: "\<exists>G2. grown {c} st G st2 G2 \<and>
           owned st2 ((A \<union> {length (s_heap st)..<length (s_heap st2)}) - G2) (Some c)"
    if "reg_ok st G" "owned st A (Some c)" "A \<subseteq> {..<length (s_heap st)} - G"
       "parseFields_h X j k raw st c flds = Inr st2" for st G A c flds st2
    by (rule parseFields_h_grows [of X j k raw, OF _ that]) (rule F)
  from Suc.prems(2) show ?case
  proof (cases rule: encodeItem_h_cases)
    case (cached b h1)
    from cached_copy [OF reg cached(1,2)] obtain v where
      v: "a2 = length (s_heap st)" "grown {} st G (st\<lparr>s_heap := h1\<rparr>) G"
         "repr h1 {length (s_heap st)..<length h1} (Some a2) v" "repr h1 G (Some b) v" by blast
    have "G \<subseteq> {..<length (s_heap st)}"
      using reg by (simp add: reg_ok_def)
    then have "{length (s_heap st)..<length h1} \<subseteq> {length (s_heap st)..<length h1} - G" by auto
    from repr_mono(1) [OF v(3) this] v(2,4) cached(1,3) show ?thesis by auto
  next
    case (reference j2 a g g2 h1)
    from new_value_post [OF reg, of g] reference(3) have
      "grown {} st G (new_value st g) G"
      "owned (new_value st g) ({length (s_heap st)..<length (s_heap (new_value st g))} - G) (Some a)"
      by simp_all
    from register_and_copy [OF this reference(2,4)] reference(5) show ?thesis by auto
  next
    case (struct j2 a g flds st1 g2 h1)
    let ?st0 = "new_value st g"
    from new_value_post [OF reg, of g] have
      g0: "grown {} st G ?st0 G" and
      o0: "owned ?st0 ({length (s_heap st)..<length (s_heap ?st0)} - G) (Some (length (s_heap st)))"
      by simp_all
    have A0: "{length (s_heap st)..<length (s_heap ?st0)} - G \<subseteq> {..<length (s_heap ?st0)} - G"
      by auto
    from struct(1) Suc.prems have j: "j2 = j" by simp
    from P [OF grown_reg [OF g0] o0 A0 struct(4) [unfolded j]] obtain G1 where
      g1: "grown {length (s_heap st)} ?st0 G st1 G1" and
      o1: "owned st1 ((({length (s_heap st)..<length (s_heap ?st0)} - G) \<union>
             {length (s_heap ?st0)..<length (s_heap st1)}) - G1) (Some (length (s_heap st)))"
      by blast
    have g: "grown {} st G st1 G1" by (rule grown_trans [OF g0 g1]) simp
    have "(({length (s_heap st)..<length (s_heap ?st0)} - G) \<union>
             {length (s_heap ?st0)..<length (s_heap st1)}) - G1
           \<subseteq> {length (s_heap st)..<length (s_heap st1)} - G1"
      using g1 by (auto simp: grown_def store_ops)
    from owned_mono [OF o1 this] struct(3)
    have "owned st1 ({length (s_heap st)..<length (s_heap st1)} - G1) (Some a)" by simp
    from register_and_copy [OF g this struct(2,5)] struct(6) show ?thesis by auto
  next
    case (aliased j2 a ty st1 g2 h1)
    from aliased(1) Suc.prems have j: "j2 = j" by simp
    from F [OF reg aliased(3) [unfolded j]] obtain G1 where
      "grown {} st G st1 G1" "owned st1 ({length (s_heap st)..<length (s_heap st1)} - G1) (Some a)"
      by auto
    from register_and_copy [OF this aliased(2,4)] aliased(5) show ?thesis by auto
  qed
qed

lemma encodeItem_h_cached_returns:
  assumes "s_objs st nm = Some b" and "repr (s_heap st) G (Some b) v" and "G \<subseteq> {..<length (s_heap st)}"
    and "depth v \<le> k"
  shows "\<exists>h2. encodeItem_h X n k raw st nm tags = Inr (length (s_heap st), st\<lparr>s_heap := h2\<rparr>) \<and>
           repr h2 {length (s_heap st)..<length h2} (Some (length (s_heap st))) v"
proof -
  from copy_h_correct [OF repr_mono(1) [OF assms(2,3)] assms(4)] obtain h2 where
    c: "copy_h k (s_heap st) (Some b) = Inr (length (s_heap st), h2)" and
    r: "repr h2 {length (s_heap st)..<length h2} (Some (length (s_heap st))) v" by blast
  from assms(1) c
  have "encodeItem_h X n k raw st nm tags = Inr (length (s_heap st), st\<lparr>s_heap := h2\<rparr>)"
    by (subst encodeItem_h.simps) simp
  with r show ?thesis by blast
qed

lemma set_hdr_fresh:
  assumes g: "grown {} st G st2 G2" and a: "length (s_heap st) \<le> a" "a \<notin> G2"
  shows "reg_ok (set_hdr st2 a g2) G2"
    and "take (length (s_heap st)) (s_heap (set_hdr st2 a g2)) = s_heap st"
    and "repr (s_heap st2) G2 p w \<Longrightarrow> repr (s_heap (set_hdr st2 a g2)) G2 p w"
    and "repr (s_heap st) S p w \<Longrightarrow> repr (s_heap (set_hdr st2 a g2)) S p w"
proof -
  let ?st3 = "set_hdr st2 a g2"
  have g23: "grown {a} st2 G2 ?st3 G2"
    by (rule grown_set_hdr [OF grown_reg [OF g] a(2)]) simp
  then show "reg_ok ?st3 G2" by (rule grown_reg)
  have g3: "grown {} st G ?st3 G2"
    by (rule grown_trans [OF g g23]) (use a in auto)
  then show "take (length (s_heap st)) (s_heap ?st3) = s_heap st" by (rule grown_take)
  show "repr (s_heap ?st3) G2 p w" if "repr (s_heap st2) G2 p w"
    by (rule grown_repr [OF g23 that]) (use a in simp)
  show "repr (s_heap ?st3) S p w" if "repr (s_heap st) S p w"
    by (rule grown_repr [OF g3 that]) simp
qed

subsection \<open>Evaluations of the examples\<close>

lemma getTagsInt_size_tag_32: "getTagsInt (size_tag ''32'') ''ssz-size'' = Some 32"
  by (simp add: size_tag_def getTagsInt_def getTags_def Trim_def HasPrefix_def HasSuffix_def
      Atoi_def is_digit_def decimal_def Let_def)

lemma first_build:
  "encodeItem (ext_fixed []) 1 ref_env ''R'' (size_tag ''32'') =
     Inr (ref_node, ref_env\<lparr>e_objs := [''R'' \<mapsto> ref_node]\<rparr>)"
  by (simp add: encodeItem.simps ref_env_def ref_node_def getTagsInt_size_tag_32 hdr0_def Let_def)


lemma getTags_empty: "getTags [] field = None"
  by (simp add: getTags_def Trim_def)



lemma ParseUint_32: "ParseUint (ext_fixed ds) ''32'' = Some 32"
  by (simp add: ext_fixed_def)

lemma extract_fixed: "extractSSZDimensions (ext_fixed ds) tags = Inr ds"
  by (simp add: ext_fixed_def)

subsection \<open>Evaluations of the registration examples\<close>

lemma decode_file_types:
  "decodeASTStruct file_types =
     Inr \<lparr>r_objs = map (\<lambda>r. r\<lparr>a_implFunc := False\<rparr>) raw_split, r_funcs = [], r_packName = ''p''\<rparr>"
  by (simp add: decodeASTStruct_def file_types_def raw_split_def Let_def)

lemma decode_file_methods:
  "decodeASTStruct file_methods = Inr \<lparr>r_objs = [], r_funcs = [''T''], r_packName = ''p''\<rparr>"
  by (simp add: decodeASTStruct_def file_methods_def four_methods_def isFuncDecl_def isSpecificFunc_def)

lemma imports_split: "decodeASTImports file_types = []" "decodeASTImports file_methods = []"
  by (simp_all add: decodeASTImports_def file_types_def file_methods_def)

lemma register_env_split:
  "register env_split =
     Inr (env_split\<lparr>e_raw := raw_split, e_order := [(''types.go'', [''T'', ''S'']), (''methods.go'', [])],
                    e_imports := []\<rparr>)"
  by (simp add: register_def env_split_def env0_def decode_file_types decode_file_methods
      imports_split raw_split_def)

lemma count_methods_split:
  "count_methods file_types ''T'' = 0" "count_methods file_methods ''T'' = 4"
  "count_methods file_types ''S'' = 0" "count_methods file_methods ''S'' = 3"
  by (simp_all add: count_methods_def file_types_def file_methods_def four_methods_def ssz_method_def
      isFuncDecl_def isSpecificFunc_def)

lemma register_env_split2: "register env_split = Inr split_registered"
  by (simp add: register_env_split split_registered_def)

lemma split_registered_sel:
  "e_raw split_registered = raw_split" "e_objs split_registered = Map.empty"
  "e_targets split_registered = []"
  "e_files env_split = [(''types.go'', file_types), (''methods.go'', file_methods)]"
  "e_include env_split = []"
  by (simp_all add: split_registered_def env_split_def env0_def)

lemma pkg_split: "PkgName file_types = ''p''" "PkgName file_methods = ''p''"
  by (simp_all add: file_types_def file_methods_def)

lemma encode_S:
  "encodeItem (ext_fixed []) (Suc 0) split_registered ''S'' [] =
     Inr (node_S, split_registered\<lparr>e_objs := [''S'' \<mapsto> node_S]\<rparr>)"
  by (simp add: encodeItem.simps split_registered_sel raw_split_def node_S_def getTags_empty
      Let_def hdr0_def parseASTFieldType.simps isExportedField_def HasPrefix_def)

lemma generateIR_env_split:
  "generateIR (ext_fixed []) (Suc 0) env_split =
     Inr (split_registered\<lparr>e_objs := [''T'' \<mapsto> node_T, ''S'' \<mapsto> node_S]\<rparr>)"
  by (simp add: generateIR_def register_env_split2 split_registered_sel,
      simp add: raw_split_def encodeItem.simps getTagsInt_def getTags_empty node_T_def node_S_def
        split_registered_sel Let_def hdr0_def parseASTFieldType.simps isExportedField_def
        HasPrefix_def)

lemma raw_split_lookup:
  "getRawItemByName (e_raw split_registered) ''T'' = Some (raw_split ! 0)"
  "getRawItemByName (e_raw split_registered) ''S'' = Some (raw_split ! 1)"
  "a_packName (raw_split ! 0) = ''p''" "a_packName (raw_split ! 1) = ''p''"
  "a_obj (raw_split ! 1) \<noteq> None"
  by (simp_all add: split_registered_sel raw_split_def)

lemma decode_file_T:
  "decodeASTStruct (file_T pk) =
     Inr \<lparr>r_objs = [\<lparr>a_name = ''T'', a_obj = Some [], a_packName = pk, a_typ = None,
                      a_implFunc = False, a_isRef = False\<rparr>],
          r_funcs = [], r_packName = pk\<rparr>"
  by (simp add: decodeASTStruct_def file_T_def Let_def)

lemma imports_file_T: "decodeASTImports (file_T pk) = []"
  by (simp add: decodeASTImports_def file_T_def)

subsection \<open>Evaluations of the store example\<close>

lemma store_example_repr: "repr store_example {..<length store_example} (Some 0) value_example"
  by (simp add: store_example_def value_example_def)

lemma value_example_depth: "depth value_example \<le> 5"
  by (simp add: value_example_def)

lemma store_example_copy: "copy_h 5 store_example (Some 0) = Inr (4, store_copied)"
  by (simp add: copy_h.simps copy_loop.simps store_example_def store_copied_def
      numeral_eq_Suc)

lemma store_example_length: "length store_example = 4" "length store_copied = 8"
  by (simp_all add: store_example_def store_copied_def)

lemma store_state_reg: "reg_ok store_state {..<4}"
  unfolding reg_ok_def
proof (intro conjI allI impI)
  show "{..<4} \<subseteq> {..<length (s_heap store_state)}"
    by (simp add: store_state_def store_example_length)
  fix nm a assume "s_objs store_state nm = Some a"
  then have "a = 0" by (simp add: store_state_def split: if_splits)
  with store_example_repr show "\<exists>v. repr (s_heap store_state) {..<4} (Some a) v"
    by (auto simp: store_state_def store_example_length)
qed

lemma store_state_encode:
  "encodeItem_h X n 5 raw store_state ''A'' tags = Inr (4, store_state\<lparr>s_heap := store_copied\<rparr>)"
  by (subst encodeItem_h.simps) (simp add: store_state_def store_example_copy)

lemma store_empty_reg: "reg_ok store_empty {}"
  by (simp add: reg_ok_def store_empty_def)

lemma store_empty_encode:
  "encodeItem_h X (Suc 0) 5 (e_raw ref_env) store_empty ''R'' (size_tag ''32'') = Inr (1, store_built)"
  by (subst encodeItem_h.simps)
     (simp add: store_empty_def store_built_def ref_env_def getTagsInt_size_tag_32 new_value_def
        new_node_def write_hdr_def copy_h.simps copy_loop.simps numeral_eq_Suc hdr0_def)

section \<open>Claims about the classifier\<close>

text \<open>
  C1.  \<^verbatim>\<open>isFixed\<close> returns true for \<^verbatim>\<open>TypeUint\<close> and \<^verbatim>\<open>TypeBool\<close> nodes and false for
  \<^verbatim>\<open>TypeList\<close> and \<^verbatim>\<open>TypeBitList\<close> nodes; on a \<^verbatim>\<open>TypeVector\<close> node it returns what it
  returns on the element node, so true iff the element is fixed; on a \<^verbatim>\<open>TypeContainer\<close> node
  it returns true iff it returns true on every field node; on a \<^verbatim>\<open>TypeBytes\<close> node it returns
  the \<^verbatim>\<open>fixed\<close> flag; on a \<^verbatim>\<open>TypeReference\<close> node it returns whether the bound width \<^verbatim>\<open>s\<close>
  is nonzero.
\<close>

theorem isFixed_by_kind:
  "(v_t v = TypeUint \<or> v_t v = TypeBool \<longrightarrow> isFixed v = Inr True) \<and>
   (v_t v = TypeList \<or> v_t v = TypeBitList \<longrightarrow> isFixed v = Inr False) \<and>
   (v_t v = TypeVector \<longrightarrow>
      (\<forall>x. v_e v = Some x \<longrightarrow> isFixed v = isFixed x) \<and>
      (isFixed v = Inr True \<longleftrightarrow> (\<exists>x. v_e v = Some x \<and> isFixed x = Inr True))) \<and>
   (v_t v = TypeContainer \<longrightarrow>
      (isFixed v = Inr True \<longleftrightarrow> (\<forall>f \<in> set (v_o v). isFixed f = Inr True))) \<and>
   (v_t v = TypeBytes \<longrightarrow> isFixed v = Inr (v_fixed v)) \<and>
   (v_t v = TypeReference \<longrightarrow> isFixed v = Inr (v_s v \<noteq> 0))"
  by (cases v) (auto simp: isFixed_fields_True split: option.splits)

text \<open>
  The theorem at one node of each kind: a \<^verbatim>\<open>uint64\<close>, a \<^verbatim>\<open>bool\<close>, a list, a bitlist, a
  vector of \<^verbatim>\<open>uint64\<close>, a container of a \<^verbatim>\<open>uint64\<close> and a list, fixed bytes, and a
  reference of width 32.
\<close>

theorem isFixed_by_kind_witness:
  "isFixed (Value (hdr0\<lparr>f_t := TypeUint, f_s := 8\<rparr>) [] None) = Inr True \<and>
   isFixed (Value (hdr0\<lparr>f_t := TypeBool, f_s := 1\<rparr>) [] None) = Inr True \<and>
   isFixed (Value (hdr0\<lparr>f_t := TypeList\<rparr>) []
      (Some (Value (hdr0\<lparr>f_t := TypeUint, f_s := 8\<rparr>) [] None))) = Inr False \<and>
   isFixed (Value (hdr0\<lparr>f_t := TypeBitList\<rparr>) [] None) = Inr False \<and>
   isFixed (Value (hdr0\<lparr>f_t := TypeVector, f_s := 4\<rparr>) []
      (Some (Value (hdr0\<lparr>f_t := TypeUint, f_s := 8\<rparr>) [] None))) = Inr True \<and>
   isFixed (Value (hdr0\<lparr>f_t := TypeContainer\<rparr>)
      [Value (hdr0\<lparr>f_t := TypeUint, f_s := 8\<rparr>) [] None,
       Value (hdr0\<lparr>f_t := TypeList\<rparr>) [] None] None) \<noteq> Inr True \<and>
   isFixed (Value (hdr0\<lparr>f_t := TypeBytes, f_fixed := True\<rparr>) [] None) = Inr True \<and>
   isFixed (Value (hdr0\<lparr>f_t := TypeReference, f_s := 32\<rparr>) [] None) = Inr True"
  using
    isFixed_by_kind [of "Value (hdr0\<lparr>f_t := TypeUint, f_s := 8\<rparr>) [] None"]
    isFixed_by_kind [of "Value (hdr0\<lparr>f_t := TypeBool, f_s := 1\<rparr>) [] None"]
    isFixed_by_kind [of "Value (hdr0\<lparr>f_t := TypeList\<rparr>) []
      (Some (Value (hdr0\<lparr>f_t := TypeUint, f_s := 8\<rparr>) [] None))"]
    isFixed_by_kind [of "Value (hdr0\<lparr>f_t := TypeBitList\<rparr>) [] None"]
    isFixed_by_kind [of "Value (hdr0\<lparr>f_t := TypeVector, f_s := 4\<rparr>) []
      (Some (Value (hdr0\<lparr>f_t := TypeUint, f_s := 8\<rparr>) [] None))"]
    isFixed_by_kind [of "Value (hdr0\<lparr>f_t := TypeContainer\<rparr>)
      [Value (hdr0\<lparr>f_t := TypeUint, f_s := 8\<rparr>) [] None,
       Value (hdr0\<lparr>f_t := TypeList\<rparr>) [] None] None"]
    isFixed_by_kind [of "Value (hdr0\<lparr>f_t := TypeBytes, f_fixed := True\<rparr>) [] None"]
    isFixed_by_kind [of "Value (hdr0\<lparr>f_t := TypeReference, f_s := 32\<rparr>) [] None"]
  by (simp add: hdr0_def)

text \<open>
  C10.  On a node that is \<open>defined\<close> (every node reachable from it has one of the eight
  kinds, every vector has an element node) \<^verbatim>\<open>isFixed\<close> returns a boolean; on a node of kind
  \<^verbatim>\<open>TypeUndefined\<close> it panics.
\<close>

theorem isFixed_returns_or_panics:
  "(defined v \<longrightarrow> (\<exists>b. isFixed v = Inr b)) \<and>
   (v_t v = TypeUndefined \<longrightarrow> isFixed v = Inl Panic)"
proof
  show "defined v \<longrightarrow> (\<exists>b. isFixed v = Inr b)"
    by (simp add: isFixed_defined)
  show "v_t v = TypeUndefined \<longrightarrow> isFixed v = Inl Panic"
    by (cases v) simp
qed

theorem isFixed_returns_or_panics_witness:
  "defined (Value (hdr0\<lparr>f_t := TypeVector, f_s := 4\<rparr>) []
      (Some (Value (hdr0\<lparr>f_t := TypeContainer\<rparr>)
         [Value (hdr0\<lparr>f_t := TypeUint, f_s := 8\<rparr>) [] None,
          Value (hdr0\<lparr>f_t := TypeBytes\<rparr>) [] None] None))) \<and>
   isFixed (Value (hdr0\<lparr>f_t := TypeVector, f_s := 4\<rparr>) []
      (Some (Value (hdr0\<lparr>f_t := TypeContainer\<rparr>)
         [Value (hdr0\<lparr>f_t := TypeUint, f_s := 8\<rparr>) [] None,
          Value (hdr0\<lparr>f_t := TypeBytes\<rparr>) [] None] None))) = Inr False \<and>
   v_t Value0 = TypeUndefined \<and> isFixed Value0 = Inl Panic"
  using
    isFixed_returns_or_panics [of "Value (hdr0\<lparr>f_t := TypeVector, f_s := 4\<rparr>) []
      (Some (Value (hdr0\<lparr>f_t := TypeContainer\<rparr>)
         [Value (hdr0\<lparr>f_t := TypeUint, f_s := 8\<rparr>) [] None,
          Value (hdr0\<lparr>f_t := TypeBytes\<rparr>) [] None] None))"]
    isFixed_returns_or_panics [of Value0]
  by (simp add: hdr0_def Value0_def)

section \<open>Claims about the builder\<close>

text \<open>
  C9.  When the registry already holds a node for a name, \<^verbatim>\<open>encodeItem\<close> returns a copy of
  that node, structurally equal to it, and leaves the environment as it is, whatever the
  tags are: two resolutions of a cached name with any two tag strings return the same.
\<close>

theorem encodeItem_cached_ignores_tags:
  assumes "e_objs e nm = Some v"
  shows "encodeItem X n e nm tags = Inr (copy v, e) \<and> copy v = v \<and>
         encodeItem X n e nm tags = encodeItem X n2 e nm tags2"
  using assms by (simp add: encodeItem.simps copy_id)

text \<open>
  The first build of the reference type \<^verbatim>\<open>R\<close> under \<^verbatim>\<open>ssz-size:"32"\<close> registers width 32; a later
  resolution under \<^verbatim>\<open>ssz-size:"64"\<close> still returns width 32.
\<close>

theorem encodeItem_cached_ignores_tags_witness:
  "encodeItem (ext_fixed []) 1 ref_env ''R'' (size_tag ''32'') =
     Inr (ref_node, ref_env\<lparr>e_objs := [''R'' \<mapsto> ref_node]\<rparr>) \<and>
   e_objs (ref_env\<lparr>e_objs := [''R'' \<mapsto> ref_node]\<rparr>) ''R'' = Some ref_node \<and>
   encodeItem (ext_fixed []) 1 (ref_env\<lparr>e_objs := [''R'' \<mapsto> ref_node]\<rparr>) ''R'' (size_tag ''64'') =
     Inr (ref_node, ref_env\<lparr>e_objs := [''R'' \<mapsto> ref_node]\<rparr>) \<and>
   v_s ref_node = 32"
  using encodeItem_cached_ignores_tags [of "ref_env\<lparr>e_objs := [''R'' \<mapsto> ref_node]\<rparr>" "''R''" ref_node
      "ext_fixed []" 1 "size_tag ''64''" 1 "size_tag ''64''"] first_build
  by (simp add: ref_node_def)




text \<open>
  C5.  A field whose type is an array with a literal length \<open>lit\<close>, parsed as \<open>a\<close>, under
  tags whose first dimension is \<open>d\<close>: the build returns an error when \<open>d\<close> is not a vector
  dimension only, or when its length (converted to \<^verbatim>\<open>uint64\<close> as the code does) is not \<open>a\<close>;
  and whenever the build returns a node, \<open>d\<close> is a vector dimension of length \<open>a\<close>, the
  node's length \<^verbatim>\<open>s\<close> is \<open>a\<close>, its flag \<^verbatim>\<open>c\<close> is set, and its kind is \<^verbatim>\<open>TypeVector\<close>
  (\<^verbatim>\<open>TypeBytes\<close> or \<^verbatim>\<open>TypeBitList\<close> when the element is \<^verbatim>\<open>byte\<close>).
\<close>

theorem literal_array_length_checked:
  assumes "getTags tags ''ssz'' \<noteq> Some ''-''"
    and "extractSSZDimensions X tags = Inr (d # ds)"
    and "ParseUint X lit = Some a"
  shows "(\<not> IsVector d \<or> IsList d \<or> word_of_int (VectorLen d) \<noteq> a \<longrightarrow>
            (\<exists>msg. parseASTFieldType X n e tags (ArrayType (Some (BasicLit lit)) elt) = Inl (Err msg))) \<and>
         (\<forall>r e1. parseASTFieldType X n e tags (ArrayType (Some (BasicLit lit)) elt) = Inr (r, e1) \<longrightarrow>
            (\<exists>v. r = Some v \<and> v_s v = a \<and> v_c v \<and>
                 IsVector d \<and> \<not> IsList d \<and> word_of_int (VectorLen d) = a \<and>
                 (if elt = Ident ''byte'' then v_t v = TypeBytes \<or> v_t v = TypeBitList
                  else v_t v = TypeVector)))"
proof (intro conjI impI allI)
  assume bad: "\<not> IsVector d \<or> IsList d \<or> word_of_int (VectorLen d) \<noteq> a"
  from parseDims_literal_error [OF assms(3) bad, of n e tags ds elt] assms(1,2)
  show "\<exists>msg. parseASTFieldType X n e tags (ArrayType (Some (BasicLit lit)) elt) = Inl (Err msg)"
    by (auto simp: parseASTFieldType.simps)
next
  fix r e1
  assume ok: "parseASTFieldType X n e tags (ArrayType (Some (BasicLit lit)) elt) = Inr (r, e1)"
  with assms(1,2) obtain v where r: "r = Some v"
    and p: "parseDims X n e tags (d # ds) (Some (BasicLit lit)) elt Value0 = Inr (v, e1)"
    by (auto simp: parseASTFieldType.simps split: sum.splits)
  have good: "IsVector d \<and> \<not> IsList d \<and> word_of_int (VectorLen d) = a"
    using parseDims_literal_error [OF assms(3), of d n e tags ds elt] p by fastforce
  have "v_s v = a \<and> v_c v \<and>
        (if elt = Ident ''byte'' then v_t v = TypeBytes \<or> v_t v = TypeBitList
         else v_t v = TypeVector)"
  proof (cases "\<exists>l2 e2. elt = ArrayType l2 e2")
    case True
    with parseDims_literal_nested [OF assms(3)] p show ?thesis by auto
  next
    case False
    with parseDims_literal_flat [OF assms(3) _ p] show ?thesis by simp
  qed
  with r good
  show "\<exists>v. r = Some v \<and> v_s v = a \<and> v_c v \<and>
            IsVector d \<and> \<not> IsList d \<and> word_of_int (VectorLen d) = a \<and>
            (if elt = Ident ''byte'' then v_t v = TypeBytes \<or> v_t v = TypeBitList
             else v_t v = TypeVector)"
    by simp
qed

theorem literal_array_length_checked_witness:
  "(\<exists>msg. parseASTFieldType (ext_fixed [vector_dim 48]) 0 env0 []
            (ArrayType (Some (BasicLit ''32'')) (Ident ''uint64'')) = Inl (Err msg)) \<and>
   (\<exists>msg. parseASTFieldType (ext_fixed [list_dim 32]) 0 env0 []
            (ArrayType (Some (BasicLit ''32'')) (Ident ''uint64'')) = Inl (Err msg)) \<and>
   parseASTFieldType (ext_fixed [vector_dim 32]) 0 env0 []
      (ArrayType (Some (BasicLit ''32'')) (Ident ''uint64'')) =
     Inr (Some (Value (hdr0\<lparr>f_t := TypeVector, f_s := 32, f_c := True\<rparr>) []
                  (Some (Value (hdr0\<lparr>f_t := TypeUint, f_s := 8\<rparr>) [] None))), env0)"
  using
    literal_array_length_checked [of "[]" "ext_fixed [vector_dim 48]" "vector_dim 48" "[]" "''32''" 32
      0 env0 "Ident ''uint64''"]
    literal_array_length_checked [of "[]" "ext_fixed [list_dim 32]" "list_dim 32" "[]" "''32''" 32
      0 env0 "Ident ''uint64''"]
    literal_array_length_checked [of "[]" "ext_fixed [vector_dim 32]" "vector_dim 32" "[]" "''32''" 32
      0 env0 "Ident ''uint64''"]
  by (simp add: getTags_empty ParseUint_32 extract_fixed vector_dim_def list_dim_def
      parseASTFieldType.simps Value0_def hdr0_def check_size_Some apply_dim_def Let_def)




section \<open>Claims about the printer\<close>

text \<open>
  C8, as stated, at an explicit input.  The type \<^verbatim>\<open>A\<close> is registered as a container, which is
  no alias of a basic type, and it is named by \<^verbatim>\<open>excludeTypeNames\<close>; the type \<^verbatim>\<open>U\<close> is an
  alias of \<^verbatim>\<open>uint64\<close>.  The printer appends no entry at all, so the output holds no
  procedures for \<^verbatim>\<open>A\<close>.
\<close>

theorem print_excluded_counterexample:
  "e_objs (print_env (\<lambda>nm. nm = ''A'')) ''A'' = Some container_node \<and>
   isFixed container_node = Inr True \<and> \<not> isBasicType container_node \<and>
   print (print_env (\<lambda>nm. nm = ''A'')) [''A'', ''U''] = Inr None"
  by (simp add: print_env_def env0_def container_node_def alias_node_def hdr0_def print_def
      detectImports_def isBasicType_def)

text \<open>
  C8, amended.  When no registered, not excluded name of the order makes \<^verbatim>\<open>detectImports\<close> or
  \<^verbatim>\<open>isFixed\<close> panic, the loop of \<^verbatim>\<open>print\<close> returns, and its entries are, in the order given,
  exactly the names that are not excluded by \<^verbatim>\<open>excludeTypeNames\<close>, are registered in
  \<^verbatim>\<open>objs\<close>, and whose node is not both fixed and of a basic kind (\<^verbatim>\<open>TypeUint\<close>, \<^verbatim>\<open>TypeBool\<close>,
  \<^verbatim>\<open>TypeBytes\<close>): one entry, that is one set of procedures, for each such name.
\<close>

theorem print_one_set_per_selected_type:
  assumes "\<forall>nm \<in> set order. \<not> e_excludeTypeNames e nm \<longrightarrow>
             (\<forall>obj. e_objs e nm = Some obj \<longrightarrow>
                (\<exists>refs. detectImports obj = Inr refs) \<and> (\<exists>b. isFixed obj = Inr b))"
  shows "\<exists>imps. print_loop e order [] [] = Inr (filter (printed e) order, imps) \<and>
           (\<forall>nm. nm \<in> set (filter (printed e) order) \<longleftrightarrow>
              nm \<in> set order \<and> \<not> e_excludeTypeNames e nm \<and>
              (\<exists>obj. e_objs e nm = Some obj \<and> \<not> (isFixed obj = Inr True \<and> isBasicType obj)))"
proof -
  from print_loop_printed [OF assms, of "[]" "[]"] obtain imps where
    "print_loop e order [] [] = Inr (filter (printed e) order, imps)"
    by auto
  then show ?thesis
    by (auto simp: printed_def split: option.splits)
qed

theorem print_one_set_per_selected_type_witness:
  "print_loop (print_env (\<lambda>nm. False)) [''A'', ''U'', ''Z''] [] [] = Inr ([''A''], []) \<and>
   print_loop (print_env (\<lambda>nm. nm = ''A'')) [''A'', ''U'', ''Z''] [] [] = Inr ([], [])"
  using print_one_set_per_selected_type [of "[''A'', ''U'', ''Z'']" "print_env (\<lambda>nm. False)"]
    print_one_set_per_selected_type [of "[''A'', ''U'', ''Z'']" "print_env (\<lambda>nm. nm = ''A'')"]
  by (simp add: print_env_def env0_def container_node_def alias_node_def hdr0_def
      detectImports_def isBasicType_def printed_def)

section \<open>Claims about the registration\<close>

text \<open>
  C3, as stated, at an explicit input.  The file \<^verbatim>\<open>types.go\<close> declares the struct \<^verbatim>\<open>T\<close> and
  holds no method; the file \<^verbatim>\<open>methods.go\<close> of the same package holds the four methods of
  \<^verbatim>\<open>*T\<close>.  The declaration file of \<^verbatim>\<open>T\<close> contains none of the four methods, and \<^verbatim>\<open>T\<close> is
  captured as a reference all the same.
\<close>

theorem reference_without_methods_in_declaration_file_counterexample:
  "decodeASTStruct file_types =
     Inr \<lparr>r_objs = map (\<lambda>r. r\<lparr>a_implFunc := False\<rparr>) raw_split, r_funcs = [], r_packName = ''p''\<rparr> \<and>
   map a_name raw_split = [''T'', ''S''] \<and>
   count_methods file_types ''T'' = 0 \<and>
   generateIR (ext_fixed []) (Suc 0) env_split =
     Inr (split_registered\<lparr>e_objs := [''T'' \<mapsto> node_T, ''S'' \<mapsto> node_S]\<rparr>) \<and>
   v_t node_T = TypeReference"
  by (simp add: decode_file_types count_methods_split generateIR_env_split)
     (simp add: raw_split_def node_T_def)

text \<open>
  C3, amended.  After the registration, let \<open>r\<close> be the raw item that \<^verbatim>\<open>encodeItem\<close> finds for
  the name \<open>nm\<close>, not yet in the registry.  If some file of the source or the include
  inputs whose package name is that of \<open>r\<close> holds exactly four function declarations with
  receiver \<^verbatim>\<open>*nm\<close> that pass \<^verbatim>\<open>isFuncDecl\<close> (one of the four names, with its exact
  signature), then \<^verbatim>\<open>encodeItem\<close> returns and registers a node of kind \<^verbatim>\<open>TypeReference\<close>
  with no field and no element node.  If no file does and \<open>r\<close> is a struct, every node
  that \<^verbatim>\<open>encodeItem\<close> returns for \<open>nm\<close> is a \<^verbatim>\<open>TypeContainer\<close>.  In a file that declares none
  of these methods twice for \<open>nm\<close>, there are exactly four such declarations iff all four
  methods are there.
\<close>

theorem reference_iff_four_methods_in_one_file:
  assumes "register e = Inr e1" and "getRawItemByName (e_raw e1) nm = Some r"
    and "e_raw e2 = e_raw e1" and "e_objs e2 nm = None"
  shows "((\<exists>fF \<in> set (e_files e @ e_include e).
             PkgName (snd fF) = a_packName r \<and> count_methods (snd fF) nm = 4) \<longrightarrow>
          (\<exists>v. encodeItem X (Suc k) e2 nm tags = Inr (v, e2\<lparr>e_objs := (e_objs e2)(nm \<mapsto> v)\<rparr>) \<and>
               v_t v = TypeReference \<and> v_o v = [] \<and> v_e v = None)) \<and>
         (\<not> (\<exists>fF \<in> set (e_files e @ e_include e).
             PkgName (snd fF) = a_packName r \<and> count_methods (snd fF) nm = 4) \<longrightarrow>
          a_obj r \<noteq> None \<longrightarrow>
          (\<forall>n v e3. encodeItem X n e2 nm tags = Inr (v, e3) \<longrightarrow> v_t v = TypeContainer)) \<and>
         (\<forall>fl. distinct (map FName (filter (ssz_method nm) (Decls fl))) \<longrightarrow>
            (count_methods fl nm = 4 \<longleftrightarrow>
               (\<forall>m \<in> set ssz_names. \<exists>dec \<in> set (Decls fl). ssz_method nm dec \<and> FName dec = m)))"
proof (intro conjI impI allI)
  assume "\<exists>fF \<in> set (e_files e @ e_include e).
             PkgName (snd fF) = a_packName r \<and> count_methods (snd fF) nm = 4"
  with register_implFunc [OF assms(1,2)] have "a_implFunc r" by simp
  with encodeItem_first_build_ref [of e2 nm r X k tags] assms(2,3,4)
  show "\<exists>v. encodeItem X (Suc k) e2 nm tags = Inr (v, e2\<lparr>e_objs := (e_objs e2)(nm \<mapsto> v)\<rparr>) \<and>
               v_t v = TypeReference \<and> v_o v = [] \<and> v_e v = None"
    by simp
next
  fix n v e3
  assume "\<not> (\<exists>fF \<in> set (e_files e @ e_include e).
             PkgName (snd fF) = a_packName r \<and> count_methods (snd fF) nm = 4)"
    and "a_obj r \<noteq> None" and enc: "encodeItem X n e2 nm tags = Inr (v, e3)"
  with register_implFunc [OF assms(1,2)] obtain flds where "\<not> a_implFunc r" "a_obj r = Some flds"
    by auto
  with encodeItem_first_build_struct [of e2 nm r flds X n tags v e3] assms(2,3,4) enc
  show "v_t v = TypeContainer" by simp
next
  fix fl :: File
  assume "distinct (map FName (filter (ssz_method nm) (Decls fl)))"
  then show "count_methods fl nm = 4 \<longleftrightarrow>
               (\<forall>m \<in> set ssz_names. \<exists>dec \<in> set (Decls fl). ssz_method nm dec \<and> FName dec = m)"
    by (rule count_methods_all_four)
qed

text \<open>
  The amended claim on the two files above: \<^verbatim>\<open>T\<close> has its four methods in \<^verbatim>\<open>methods.go\<close>;
  \<^verbatim>\<open>S\<close> has three there, and is expanded.
\<close>

theorem reference_iff_four_methods_in_one_file_witness:
  "register env_split = Inr split_registered \<and>
   getRawItemByName (e_raw split_registered) ''T'' = Some (raw_split ! 0) \<and>
   count_methods file_types ''T'' = 0 \<and> count_methods file_methods ''T'' = 4 \<and>
   (\<exists>v. encodeItem (ext_fixed []) (Suc 0) split_registered ''T'' [] =
          Inr (v, split_registered\<lparr>e_objs := (e_objs split_registered)(''T'' \<mapsto> v)\<rparr>) \<and>
        v_t v = TypeReference \<and> v_o v = [] \<and> v_e v = None) \<and>
   getRawItemByName (e_raw split_registered) ''S'' = Some (raw_split ! 1) \<and>
   count_methods file_types ''S'' = 0 \<and> count_methods file_methods ''S'' = 3 \<and>
   encodeItem (ext_fixed []) (Suc 0) split_registered ''S'' [] =
     Inr (node_S, split_registered\<lparr>e_objs := [''S'' \<mapsto> node_S]\<rparr>) \<and>
   v_t node_S = TypeContainer \<and>
   distinct (map FName (filter (ssz_method ''T'') (Decls file_methods))) \<and>
   map FName (filter (ssz_method ''T'') (Decls file_methods)) = ssz_names"
proof -
  have none: "e_objs split_registered ''T'' = None" "e_objs split_registered ''S'' = None"
    by (simp_all add: split_registered_sel)
  note T = reference_iff_four_methods_in_one_file
    [OF register_env_split2 raw_split_lookup(1) refl none(1), of "ext_fixed []" 0 "[]"]
  note S = reference_iff_four_methods_in_one_file
    [OF register_env_split2 raw_split_lookup(2) refl none(2), of "ext_fixed []" 0 "[]"]
  have four: "\<exists>fF \<in> set (e_files env_split @ e_include env_split).
      PkgName (snd fF) = a_packName (raw_split ! 0) \<and> count_methods (snd fF) ''T'' = 4"
    by (simp add: split_registered_sel pkg_split count_methods_split raw_split_lookup)
  have three: "\<not> (\<exists>fF \<in> set (e_files env_split @ e_include env_split).
      PkgName (snd fF) = a_packName (raw_split ! 1) \<and> count_methods (snd fF) ''S'' = 4)"
    by (simp add: split_registered_sel pkg_split count_methods_split raw_split_lookup)
  from T four have ref: "\<exists>v. encodeItem (ext_fixed []) (Suc 0) split_registered ''T'' [] =
          Inr (v, split_registered\<lparr>e_objs := (e_objs split_registered)(''T'' \<mapsto> v)\<rparr>) \<and>
        v_t v = TypeReference \<and> v_o v = [] \<and> v_e v = None"
    by blast
  from S three raw_split_lookup(5) encode_S have cont: "v_t node_S = TypeContainer"
    by blast
  have names: "map FName (filter (ssz_method ''T'') (Decls file_methods)) = ssz_names"
    by (simp add: file_methods_def four_methods_def ssz_method_def isFuncDecl_def
        isSpecificFunc_def ssz_names_def)
  then have dist: "distinct (map FName (filter (ssz_method ''T'') (Decls file_methods)))"
    by (simp add: ssz_names_def)
  from T dist have "count_methods file_methods ''T'' = 4 \<longleftrightarrow>
      (\<forall>m \<in> set ssz_names. \<exists>dec \<in> set (Decls file_methods). ssz_method ''T'' dec \<and> FName dec = m)"
    by blast
  with ref cont names dist show ?thesis
    by (simp add: register_env_split2 raw_split_lookup count_methods_split encode_S)
qed

text \<open>
  C4, at an input on which the code does not do what the claim says.  The source file of
  package \<^verbatim>\<open>a\<close> and the included file of package \<^verbatim>\<open>b\<close> both declare a type \<^verbatim>\<open>T\<close>:
  \<^verbatim>\<open>generateIR\<close> returns no error and registers both raw items, because \<^verbatim>\<open>addStructs\<close> looks
  for an earlier item of the same name and the same package.  When both files are of
  package \<^verbatim>\<open>a\<close>, it returns the error.
\<close>

theorem same_name_in_two_packages_is_accepted:
  "(case generateIR (ext_fixed []) (Suc 0) (env_dup ''a'' ''b'') of
      Inl err \<Rightarrow> []
    | Inr e \<Rightarrow> map (\<lambda>r. (a_packName r, a_name r, a_isRef r)) (e_raw e)) =
     [(''a'', ''T'', False), (''b'', ''T'', True)] \<and>
   generateIR (ext_fixed []) (Suc 0) (env_dup ''a'' ''a'') = Inl (Err ''two structs share the same name'')"
  by (simp add: generateIR_def register_def env_dup_def env0_def decode_file_T imports_file_T
      encodeItem.simps Let_def)

section \<open>Claims about the copies\<close>

text \<open>
  C2.  A state whose registry reads as values (\<open>reg_ok\<close>) is given.  (1) When the name is
  in the registry, its entry reads as the value \<open>v\<close>, and the bound of \<^verbatim>\<open>copy\<close> is at least
  the depth of \<open>v\<close>, then \<^verbatim>\<open>encodeItem\<close> returns.  (2) Whenever \<^verbatim>\<open>encodeItem\<close> returns a node,
  in either branch: the name is in the registry of the new state, at the address \<open>b\<close>; the
  returned node and the entry read as the same value \<open>v\<close>; the returned structure consists
  of cells that are new and are no cells of the registry, so no cell can be reached both
  from it and from the entry; the cells of the old heap are unchanged and every entry of
  the old registry is still at its address; and after any write to the scalar fields of the
  returned node (\<^verbatim>\<open>ref\<close>, \<^verbatim>\<open>noPtr\<close>, \<^verbatim>\<open>name\<close>) the registry still reads as values, every structure
  of the registry reads as the same value as before the write, the cells of the old heap
  are unchanged, and every structure of the old heap, an entry of the registry or a copy
  handed out to another use site before, reads as the same value as before the resolution.
  (3) Whenever \<^verbatim>\<open>parseASTFieldType\<close>, which holds the use sites and makes the writes of
  \<^verbatim>\<open>ref\<close> and \<^verbatim>\<open>noPtr\<close>, returns: the cells of the old heap are unchanged, every entry of the old
  registry is still at its address, the registry reads as values, and the returned node,
  when not \<^verbatim>\<open>nil\<close>, leads to a structure of new cells that are no cells of the registry.
\<close>

theorem resolution_returns_private_copy:
  assumes "reg_ok st G"
  shows "(\<forall>b v. s_objs st nm = Some b \<and> repr (s_heap st) G (Some b) v \<and> depth v \<le> k \<longrightarrow>
            (\<exists>a st2. encodeItem_h X n k raw st nm tags = Inr (a, st2) \<and>
               repr (s_heap st2) {length (s_heap st)..<length (s_heap st2)} (Some a) v)) \<and>
         (\<forall>a st2. encodeItem_h X n k raw st nm tags = Inr (a, st2) \<longrightarrow>
            (\<exists>G2 b v. reg_ok st2 G2 \<and> G \<subseteq> G2 \<and> s_objs st2 nm = Some b \<and>
               repr (s_heap st2) G2 (Some b) v \<and>
               repr (s_heap st2) ({length (s_heap st)..<length (s_heap st2)} - G2) (Some a) v \<and>
               reach (s_heap st2) a \<inter> reach (s_heap st2) b = {} \<and>
               take (length (s_heap st)) (s_heap st2) = s_heap st \<and>
               (\<forall>nm2 b2. s_objs st nm2 = Some b2 \<longrightarrow> s_objs st2 nm2 = Some b2) \<and>
               (\<forall>g. reg_ok (set_hdr st2 a g) G2 \<and>
                    take (length (s_heap st)) (s_heap (set_hdr st2 a g)) = s_heap st \<and>
                    (\<forall>p w. repr (s_heap st2) G2 p w \<longrightarrow> repr (s_heap (set_hdr st2 a g)) G2 p w) \<and>
                    (\<forall>S p w. repr (s_heap st) S p w \<longrightarrow> repr (s_heap (set_hdr st2 a g)) S p w)))) \<and>
         (\<forall>tags2 expr p st2. parseASTFieldType_h X n k raw st tags2 expr = Inr (p, st2) \<longrightarrow>
            (\<exists>G2. reg_ok st2 G2 \<and> G \<subseteq> G2 \<and>
               take (length (s_heap st)) (s_heap st2) = s_heap st \<and>
               (\<forall>nm2 b2. s_objs st nm2 = Some b2 \<longrightarrow> s_objs st2 nm2 = Some b2) \<and>
               (p = None \<or> owned st2 ({length (s_heap st)..<length (s_heap st2)} - G2) p)))"
proof (intro conjI allI impI)
  fix b v
  assume "s_objs st nm = Some b \<and> repr (s_heap st) G (Some b) v \<and> depth v \<le> k"
  moreover have "G \<subseteq> {..<length (s_heap st)}" using assms by (simp add: reg_ok_def)
  ultimately obtain h2 where
    "encodeItem_h X n k raw st nm tags = Inr (length (s_heap st), st\<lparr>s_heap := h2\<rparr>)"
    "repr h2 {length (s_heap st)..<length h2} (Some (length (s_heap st))) v"
    using encodeItem_h_cached_returns [of st nm b G v k X n raw tags] by blast
  then show "\<exists>a st2. encodeItem_h X n k raw st nm tags = Inr (a, st2) \<and>
               repr (s_heap st2) {length (s_heap st)..<length (s_heap st2)} (Some a) v"
    by auto
next
  fix a st2
  assume call: "encodeItem_h X n k raw st nm tags = Inr (a, st2)"
  from encodeItem_h_private [OF assms call] obtain G2 v b where
    g: "grown {} st G st2 G2" and
    ra: "repr (s_heap st2) ({length (s_heap st)..<length (s_heap st2)} - G2) (Some a) v" and
    b: "s_objs st2 nm = Some b" and rb: "repr (s_heap st2) G2 (Some b) v" by blast
  from repr_Some [OF ra] have a: "length (s_heap st) \<le> a" "a \<notin> G2" by auto
  from reach_subset [OF ra] reach_subset [OF rb]
  have disj: "reach (s_heap st2) a \<inter> reach (s_heap st2) b = {}" by blast
  have keep: "\<forall>nm2 b2. s_objs st nm2 = Some b2 \<longrightarrow> s_objs st2 nm2 = Some b2"
    using g by (simp add: grown_def)
  have sub: "G \<subseteq> G2" using g by (simp add: grown_def)
  have wr: "\<forall>g. reg_ok (set_hdr st2 a g) G2 \<and>
                    take (length (s_heap st)) (s_heap (set_hdr st2 a g)) = s_heap st \<and>
                    (\<forall>p w. repr (s_heap st2) G2 p w \<longrightarrow> repr (s_heap (set_hdr st2 a g)) G2 p w) \<and>
                    (\<forall>S p w. repr (s_heap st) S p w \<longrightarrow> repr (s_heap (set_hdr st2 a g)) S p w)"
    using set_hdr_fresh [OF g a] by blast
  from grown_reg [OF g] sub b rb ra disj grown_take [OF g] keep wr
  show "\<exists>G2 b v. reg_ok st2 G2 \<and> G \<subseteq> G2 \<and> s_objs st2 nm = Some b \<and>
               repr (s_heap st2) G2 (Some b) v \<and>
               repr (s_heap st2) ({length (s_heap st)..<length (s_heap st2)} - G2) (Some a) v \<and>
               reach (s_heap st2) a \<inter> reach (s_heap st2) b = {} \<and>
               take (length (s_heap st)) (s_heap st2) = s_heap st \<and>
               (\<forall>nm2 b2. s_objs st nm2 = Some b2 \<longrightarrow> s_objs st2 nm2 = Some b2) \<and>
               (\<forall>g. reg_ok (set_hdr st2 a g) G2 \<and>
                    take (length (s_heap st)) (s_heap (set_hdr st2 a g)) = s_heap st \<and>
                    (\<forall>p w. repr (s_heap st2) G2 p w \<longrightarrow> repr (s_heap (set_hdr st2 a g)) G2 p w) \<and>
                    (\<forall>S p w. repr (s_heap st) S p w \<longrightarrow> repr (s_heap (set_hdr st2 a g)) S p w))"
    by blast
next
  fix tags2 expr p st2
  assume call: "parseASTFieldType_h X n k raw st tags2 expr = Inr (p, st2)"
  have E: "\<exists>G2. grown {} st G st2 G2 \<and>
        owned st2 ({length (s_heap st)..<length (s_heap st2)} - G2) (Some a)"
    if "reg_ok st G" "encodeItem_h X n k raw st nm tags = Inr (a, st2)" for st nm tags a st2 G
    using encodeItem_h_private [OF that] unfolding owned_def by blast
  have "\<exists>G2. grown {} st G st2 G2 \<and>
           (p = None \<or> owned st2 ({length (s_heap st)..<length (s_heap st2)} - G2) p)"
    by (rule parse_h_grows [THEN conjunct1, rule_format, OF _ assms call]) (rule E)
  then obtain G2 where g: "grown {} st G st2 G2" and
    o: "p = None \<or> owned st2 ({length (s_heap st)..<length (s_heap st2)} - G2) p" by blast
  from g have "G \<subseteq> G2" "\<forall>nm2 b2. s_objs st nm2 = Some b2 \<longrightarrow> s_objs st2 nm2 = Some b2"
    by (simp_all add: grown_def)
  with grown_reg [OF g] grown_take [OF g] o
  show "\<exists>G2. reg_ok st2 G2 \<and> G \<subseteq> G2 \<and>
               take (length (s_heap st)) (s_heap st2) = s_heap st \<and>
               (\<forall>nm2 b2. s_objs st nm2 = Some b2 \<longrightarrow> s_objs st2 nm2 = Some b2) \<and>
               (p = None \<or> owned st2 ({length (s_heap st)..<length (s_heap st2)} - G2) p)"
    by blast
qed

theorem resolution_returns_private_copy_witness:
  "reg_ok store_state {..<4} \<and>
   encodeItem_h (ext_fixed []) 0 5 [] store_state ''A'' (size_tag ''32'') =
     Inr (4, store_state\<lparr>s_heap := store_copied\<rparr>) \<and>
   repr store_copied {4..<8} (Some 4) value_example \<and>
   reach store_copied 4 \<inter> reach store_copied 0 = {} \<and>
   take 4 store_copied = store_example \<and>
   repr (write_hdr store_copied 4 (\<lambda>x. x\<lparr>f_ref := ''pkg'', f_noPtr := True\<rparr>)) {..<4} (Some 0)
     value_example \<and>
   reg_ok store_empty {} \<and>
   encodeItem_h (ext_fixed []) (Suc 0) 5 (e_raw ref_env) store_empty ''R'' (size_tag ''32'') =
     Inr (1, store_built) \<and>
   reach (s_heap store_built) 1 \<inter> reach (s_heap store_built) 0 = {} \<and>
   repr (s_heap store_built) {1} (Some 1) ref_node \<and>
   encodeItem (ext_fixed []) 1 ref_env ''R'' (size_tag ''32'') =
     Inr (ref_node, ref_env\<lparr>e_objs := [''R'' \<mapsto> ref_node]\<rparr>)"
proof -
  let ?st2 = "store_state\<lparr>s_heap := store_copied\<rparr>"
  let ?g = "\<lambda>x. x\<lparr>f_ref := ''pkg'', f_noPtr := True\<rparr>"
  note enc = store_state_encode [of "ext_fixed []" 0 "[]" "size_tag ''32''"]
  note inst = resolution_returns_private_copy [OF store_state_reg,
      of "''A''" 5 "ext_fixed []" 0 "[]" "size_tag ''32''"]
  have entry: "s_objs store_state ''A'' = Some 0 \<and>
               repr (s_heap store_state) {..<4} (Some 0) value_example \<and> depth value_example \<le> 5"
    using store_example_repr value_example_depth
    by (simp add: store_state_def store_example_length)
  from inst [THEN conjunct1, rule_format, OF entry] enc
  have copy: "repr store_copied {4..<8} (Some 4) value_example"
    by (simp add: store_state_def store_example_length)
  from inst [THEN conjunct2, THEN conjunct1, rule_format, OF enc] obtain G2 b v where
    r: "s_objs ?st2 ''A'' = Some b"
       "reach (s_heap ?st2) 4 \<inter> reach (s_heap ?st2) b = {}"
       "take (length (s_heap store_state)) (s_heap ?st2) = s_heap store_state"
       "\<And>g S p w. repr (s_heap store_state) S p w \<Longrightarrow> repr (s_heap (set_hdr ?st2 4 g)) S p w"
    by blast
  from r(1) have b: "b = 0" by (simp add: store_state_def)
  from r(2) b have disj: "reach store_copied 4 \<inter> reach store_copied 0 = {}" by simp
  from r(3) have tk: "take 4 store_copied = store_example"
    by (simp add: store_state_def store_example_length)
  from r(4) [of "{..<4}" "Some 0" value_example ?g] entry
  have wr: "repr (write_hdr store_copied 4 ?g) {..<4} (Some 0) value_example"
    by (simp add: set_hdr_def)
  note enc2 = store_empty_encode [of "ext_fixed []"]
  note inst2 = resolution_returns_private_copy [OF store_empty_reg,
      of "''R''" 5 "ext_fixed []" "Suc 0" "e_raw ref_env" "size_tag ''32''"]
  from inst2 [THEN conjunct2, THEN conjunct1, rule_format, OF enc2] obtain G3 b3 v3 where
    r3: "s_objs store_built ''R'' = Some b3"
        "reach (s_heap store_built) 1 \<inter> reach (s_heap store_built) b3 = {}"
    by blast
  from r3(1) have "b3 = 0" by (simp add: store_built_def)
  with r3(2) have disj2: "reach (s_heap store_built) 1 \<inter> reach (s_heap store_built) 0 = {}" by simp
  have rd: "repr (s_heap store_built) {1} (Some 1) ref_node"
    by (simp add: store_built_def ref_node_def new_node_def hdr0_def)
  from store_state_reg enc copy disj tk wr store_empty_reg enc2 disj2 rd first_build
  show ?thesis by blast
qed

end
